theory Spec2Isabelle
  imports Complex_Main
begin

section \<open>JavaScript values used by the bots\<close>

text \<open>
  A \<^verbatim>\<open>Date\<close> object is its time value: milliseconds since the epoch, or \<^verbatim>\<open>NaN\<close> for an
  Invalid Date, written \<open>None\<close>. The relational operators on two dates compare the time
  values, and every comparison with \<^verbatim>\<open>NaN\<close> is false. The constructor \<^verbatim>\<open>new Date(str)\<close> is
  a built-in of the language; the functions below take it as the parameter \<open>D\<close>.
\<close>

type_synonym jsdate = "int option"

definition date_ge :: "jsdate \<Rightarrow> jsdate \<Rightarrow> bool" where
  "date_ge a b = (case a of None \<Rightarrow> False | Some x \<Rightarrow> (case b of None \<Rightarrow> False | Some y \<Rightarrow> y \<le> x))"

definition date_le :: "jsdate \<Rightarrow> jsdate \<Rightarrow> bool" where
  "date_le a b = (case a of None \<Rightarrow> False | Some x \<Rightarrow> (case b of None \<Rightarrow> False | Some y \<Rightarrow> x \<le> y))"

definition date_lt :: "jsdate \<Rightarrow> jsdate \<Rightarrow> bool" where
  "date_lt a b = (case a of None \<Rightarrow> False | Some x \<Rightarrow> (case b of None \<Rightarrow> False | Some y \<Rightarrow> x < y))"

text \<open>
  Truthiness of a value that is \<^verbatim>\<open>null\<close>/\<^verbatim>\<open>undefined\<close> (\<open>None\<close>) or a string: the empty
  string is falsy like \<^verbatim>\<open>null\<close>.
\<close>

definition truthy :: "string option \<Rightarrow> bool" where
  "truthy v = (case v of None \<Rightarrow> False | Some str \<Rightarrow> str \<noteq> [])"

text \<open>\<^verbatim>\<open>String.prototype.includes\<close>: the second string occurs in the first.\<close>

fun str_includes :: "string \<Rightarrow> string \<Rightarrow> bool" where
  "str_includes [] sub = (sub = [])"
| "str_includes (c # cs) sub = (take (length sub) (c # cs) = sub \<or> str_includes cs sub)"

text \<open>
  The timestamps of the calendar dates used in the examples below, as
  \<^verbatim>\<open>new Date("YYYY-MM-DD").getTime()\<close> gives them (UTC midnight); any other string of the
  examples is not a date.
\<close>

definition exampleDate :: "string \<Rightarrow> jsdate" where
  "exampleDate str =
     (if str = ''2026-01-01'' then Some 1767225600000
      else if str = ''2026-01-05'' then Some 1767571200000
      else if str = ''2026-02-10'' then Some 1770681600000
      else if str = ''2026-03-31'' then Some 1774915200000
      else if str = ''2026-04-01'' then Some 1775001600000
      else None)"

section \<open>Configuration\<close>

text \<open>
  The fields of \<^verbatim>\<open>CONFIG\<close> that the engine reads. \<^verbatim>\<open>parseInt(env) || dflt\<close> yields the
  default when the variable is missing or not a number (\<open>None\<close>) and also when it is \<open>0\<close>.
\<close>

record config =
  startDate :: jsdate
  endDate :: jsdate
  targetCPM :: int
  verifyEmail :: string
  verifyPassword :: string
  intervalMins :: int
  proxyEnabled :: bool

definition parseIntOr :: "int option \<Rightarrow> int \<Rightarrow> int" where
  "parseIntOr parsed dflt = (case parsed of None \<Rightarrow> dflt | Some n \<Rightarrow> (if n = 0 then dflt else n))"

section \<open>Cadence\<close>

text \<open>
  \<^verbatim>\<open>getDelay\<close> of the engine with freshness verification. Its argument comes from
  \<^verbatim>\<open>parseInt\<close> and is an integer; the quotient and the difference are taken exactly, as
  rationals, before \<^verbatim>\<open>Math.floor\<close>. A zero rate makes the quotient \<^verbatim>\<open>Infinity\<close>, which is no
  number of milliseconds: \<open>None\<close>.
\<close>

definition getDelay :: "int \<Rightarrow> int option" where
  "getDelay cpm =
     (if cpm = 0 then None
      else (let overhead = (100 :: rat);
                idealCycle = 60000 / rat_of_int cpm
            in Some (max 0 \<lfloor>idealCycle - overhead\<rfloor>)))"

text \<open>
  \<^verbatim>\<open>getRandomDelay\<close> of \<^verbatim>\<open>visa-bot.js\<close>; the second argument is the value of
  \<^verbatim>\<open>Math.random()\<close>, and the arithmetic is exact again. With a zero rate the result is
  \<^verbatim>\<open>Infinity\<close> or \<^verbatim>\<open>NaN\<close>: \<open>None\<close>.
\<close>

definition getRandomDelay :: "int \<Rightarrow> rat \<Rightarrow> int option" where
  "getRandomDelay cpm random =
     (if cpm = 0 then None
      else (let baseDelay = 60000 / rat_of_int cpm;
                jitter = baseDelay * (3 / 10) * (random - 1 / 2)
            in Some (max 1000 \<lfloor>baseDelay + jitter\<rfloor>)))"

section \<open>The response listener and the closest-slot tracker\<close>

text \<open>
  A record of the availability list carries its date as a string. A response event is the
  URL, the parsed body, and the two clock readings the callback takes: \<^verbatim>\<open>Date.now()\<close> and
  the local midnight of \<^verbatim>\<open>new Date()\<close> after \<^verbatim>\<open>setHours(0, 0, 0, 0)\<close>.
\<close>

record slot =
  date :: string

datatype body = NotJson | SlotArray "slot list" | TimesObject "string list" | OtherJson

record response =
  url :: string
  payload :: body
  receivedAt :: int
  todayMidnight :: int

text \<open>
  The module state of the engine with freshness verification, together with the locals of
  its monitoring loop. \<open>verifyBrowser\<close> holds whether the variable is non-null.
\<close>

record bot =
  availableDate :: "slot option"
  availableTime :: "string option"
  lastResponseTime :: int
  closestSlotFound :: "slot option"
  lastRequestTime :: int
  lastLatency :: int
  bookingInProgress :: bool
  verifyBrowser :: bool
  lastVerifyTime :: int
  checkCount :: nat
  lastCookieReset :: int
  lastTelegramUpdate :: int

definition isDateInRange :: "(string \<Rightarrow> jsdate) \<Rightarrow> string \<Rightarrow> jsdate \<Rightarrow> jsdate \<Rightarrow> bool" where
  "isDateInRange D dateStr startD endD =
     (let d = D dateStr in date_ge d startD \<and> date_le d endD)"

text \<open>
  The tracker update inside the listener of the engine. The test \<^verbatim>\<open>slotDate >= today\<close>
  compares \<^verbatim>\<open>new Date(availableDate.date)\<close>, which for a plain date is midnight UTC of
  that day, with the local midnight of the current day. A slot that passes it is stored when
  nothing is tracked or when it is strictly earlier than the tracked one.
\<close>

definition updateClosestSlotFound ::
  "(string \<Rightarrow> jsdate) \<Rightarrow> int \<Rightarrow> slot \<Rightarrow> slot option \<Rightarrow> slot option" where
  "updateClosestSlotFound D today a closest =
     (let slotDate = D (date a) in
      if date_ge slotDate (Some today)
      then (if (case closest of None \<Rightarrow> True | Some c \<Rightarrow> date_lt slotDate (D (date c)))
            then Some a else closest)
      else closest)"

definition recordSlot :: "(string \<Rightarrow> jsdate) \<Rightarrow> response \<Rightarrow> slot \<Rightarrow> bot \<Rightarrow> bot" where
  "recordSlot D r a s =
     (let s1 = s\<lparr>availableDate := Some a,
                 lastResponseTime := receivedAt r,
                 lastLatency := (if 0 < lastRequestTime s then receivedAt r - lastRequestTime s
                                 else lastLatency s)\<rparr>
      in s1\<lparr>closestSlotFound := updateClosestSlotFound D (todayMidnight r) a (closestSlotFound s1)\<rparr>)"

text \<open>
  The callback of \<^verbatim>\<open>setupResponseListener\<close>. A body that is not JSON makes
  \<^verbatim>\<open>response.json()\<close> raise, which the callback swallows; an empty array or another shape
  is skipped.
\<close>

definition onResponse :: "(string \<Rightarrow> jsdate) \<Rightarrow> response \<Rightarrow> bot \<Rightarrow> bot" where
  "onResponse D r s =
     (let u = url r;
          s1 = (if str_includes u ''.json'' \<and> str_includes u ''appointments''
                   \<and> \<not> str_includes u ''date=''
                then (case payload r of SlotArray (a # rest) \<Rightarrow> recordSlot D r a s | _ \<Rightarrow> s)
                else s)
      in if str_includes u ''.json'' \<and> str_includes u ''date=''
         then (case payload r of
                 TimesObject (t # rest) \<Rightarrow> s1\<lparr>availableTime := Some t\<rparr>
               | _ \<Rightarrow> s1)
         else s1)"


definition listen :: "(string \<Rightarrow> jsdate) \<Rightarrow> response list \<Rightarrow> bot \<Rightarrow> bot" where
  "listen D rs s = foldl (\<lambda>st r. onResponse D r st) s rs"



text \<open>
  Between two tracked slots: the new one is the old one, or its date is strictly earlier.
\<close>

definition noLater :: "(string \<Rightarrow> jsdate) \<Rightarrow> slot \<Rightarrow> slot \<Rightarrow> bool" where
  "noLater D new old = (new = old \<or> date_lt (D (date new)) (D (date old)))"

section \<open>Freshness verification\<close>

text \<open>
  What one run of \<^verbatim>\<open>verifyDataFreshness\<close> meets in the second browser session:
  \<^item> \<open>VerifyThrew\<close>: an awaited step raised before the login check or between it and the
    comparison (launch, navigation, a selector that never appears);
  \<^item> \<open>VerifyLoginFailed c\<close>: the page is still on \<^verbatim>\<open>sign_in\<close> after the form was submitted;
    \<open>c\<close> tells whether closing the browser there raised;
  \<^item> \<open>VerifyCompared v c\<close>: the run reached the comparison with \<open>v\<close> captured from the
    verification account; \<open>c\<close> tells whether closing the browser before it raised.
  \<open>finishedAt\<close> is the reading of \<^verbatim>\<open>Date.now()\<close> the run takes when it resets the timer.
\<close>

datatype verify_outcome =
    VerifyThrew
  | VerifyLoginFailed bool
  | VerifyCompared "slot option" bool

record verify_env =
  outcome :: verify_outcome
  finishedAt :: int

definition hasVerifyAccount :: "config \<Rightarrow> bool" where
  "hasVerifyAccount cfg = (verifyEmail cfg \<noteq> [] \<and> verifyPassword cfg \<noteq> [])"

text \<open>The handler of the \<^verbatim>\<open>try\<close> block: close the browser, reset the timer, report fresh.\<close>

definition verifyCatch :: "verify_env \<Rightarrow> bot \<Rightarrow> bool \<times> bot" where
  "verifyCatch e s = (True, s\<lparr>verifyBrowser := False, lastVerifyTime := finishedAt e\<rparr>)"

text \<open>The decision on the two dates: \<open>True\<close> is fresh, \<open>False\<close> is stale.\<close>

definition compareDates :: "string option \<Rightarrow> string option \<Rightarrow> bool" where
  "compareDates mainDate verifyDate =
     (if truthy mainDate \<and> truthy verifyDate \<and> mainDate \<noteq> verifyDate then False
      else if \<not> truthy mainDate \<and> truthy verifyDate then False
      else True)"

definition verifyDataFreshness :: "config \<Rightarrow> verify_env \<Rightarrow> bot \<Rightarrow> bool \<times> bot" where
  "verifyDataFreshness cfg e s =
     (if \<not> hasVerifyAccount cfg then (True, s\<lparr>lastVerifyTime := finishedAt e\<rparr>)
      else (case outcome e of
              VerifyThrew \<Rightarrow> verifyCatch e s
            | VerifyLoginFailed closeRaised \<Rightarrow>
                (if closeRaised then verifyCatch e (s\<lparr>verifyBrowser := True\<rparr>)
                 else (True, s\<lparr>verifyBrowser := True\<rparr>))
            | VerifyCompared captured closeRaised \<Rightarrow>
                (let mainDate = map_option date (availableDate s);
                     verifyDate = map_option date captured
                 in if closeRaised then verifyCatch e (s\<lparr>verifyBrowser := True\<rparr>)
                    else (compareDates mainDate verifyDate,
                          s\<lparr>verifyBrowser := False, lastVerifyTime := finishedAt e\<rparr>))))"

section \<open>A booking attempt\<close>

text \<open>
  What one call of \<^verbatim>\<open>performBooking\<close> meets on the page. Each of the three
  \<^verbatim>\<open>page.evaluate\<close> steps may raise. While the first one is awaited the listener may capture
  a time; after it the function polls every 10 ms with no bound, and each poll gives what
  the listener captured meanwhile and what the dropdown holds. \<open>formLookup\<close> is the outcome
  of the query for \<^verbatim>\<open>#appointments_submit\<close>; a query that fails is turned into \<^verbatim>\<open>null\<close> by
  its \<^verbatim>\<open>catch\<close>, as when the form is not there.
\<close>

datatype lookup = Found | NotFound | LookupFailed

record booking_env =
  setDateRaises :: bool
  timeDuringSetDate :: "string option"
  polls :: "(string option \<times> string option) list"
  setTimeRaises :: bool
  confirmRaises :: bool
  formLookup :: lookup

definition stillOnForm :: "booking_env \<Rightarrow> bool" where
  "stillOnForm e = (case formLookup e of Found \<Rightarrow> True | NotFound \<Rightarrow> False | LookupFailed \<Rightarrow> False)"

text \<open>
  The loop \<^verbatim>\<open>while (!availableTime)\<close>. The list holds the polls that were observed; when it
  ends with no time the loop has not come to an end: \<open>None\<close>.
\<close>

fun awaitTime :: "string option \<Rightarrow> (string option \<times> string option) list \<Rightarrow> string option" where
  "awaitTime cur ps =
     (if truthy cur then cur
      else (case ps of
              [] \<Rightarrow> None
            | (captured, dropdownTime) # rest \<Rightarrow>
                (if truthy dropdownTime then dropdownTime
                 else awaitTime (case captured of None \<Rightarrow> cur | Some t \<Rightarrow> Some t) rest)))"

text \<open>
  \<^verbatim>\<open>performBooking\<close>: the result is \<open>None\<close> when the wait for a time has not ended, and
  otherwise what the function returns. The handler of its \<^verbatim>\<open>try\<close> block asks the page for
  the form again and decides on that alone.
\<close>

definition bookingCatch :: "booking_env \<Rightarrow> bool" where
  "bookingCatch e = (if \<not> stillOnForm e then True else False)"

definition performBooking :: "booking_env \<Rightarrow> bot \<Rightarrow> bool option \<times> bot" where
  "performBooking e s =
     (let s0 = s\<lparr>availableTime := None\<rparr> in
      if setDateRaises e then (Some (bookingCatch e), s0)
      else (case awaitTime (timeDuringSetDate e) (polls e) of
              None \<Rightarrow> (None, s0)
            | Some t \<Rightarrow>
                (let s1 = s0\<lparr>availableTime := Some t\<rparr> in
                 if setTimeRaises e then (Some (bookingCatch e), s1)
                 else if confirmRaises e then (Some (bookingCatch e), s1)
                 else if stillOnForm e then (Some False, s1)
                 else (Some True, s1))))"

section \<open>The monitoring loop\<close>

text \<open>
  How a pass of the loop, or a session, ends: the loop goes on to its next pass; the
  session is torn down and \<^verbatim>\<open>runBot\<close> is called again; the process exits with a code; or
  a booking attempt is still waiting for a time.
\<close>

datatype ending = Continue | Restart | Exited int | Hung

text \<open>
  The trace of a run: each call of \<^verbatim>\<open>login\<close>, each call of \<^verbatim>\<open>verifyDataFreshness\<close> and
  each call of \<^verbatim>\<open>performBooking\<close> (with its attempt number), the last two with the value
  the flag \<^verbatim>\<open>bookingInProgress\<close> has at the call.
\<close>

datatype event = EvLogin | EvVerify bool | EvAttempt nat bool

text \<open>
  What one pass of the loop meets: the clock (one reading stands for every \<^verbatim>\<open>Date.now()\<close>
  of the pass outside the verification run); whether the cookie reset (clear, log in,
  navigate) goes through; whether the page answers the liveness probe; the verification
  session; the two texts looked for on the page; whether the re-query was triggered; the
  responses that arrive before the slot is read; the page as each booking attempt finds
  it; and how the wait of 50 ms after each failed attempt goes. That wait stands between
  setting and clearing the flag \<^verbatim>\<open>bookingInProgress\<close> and outside the handler around the
  attempt. The other timed waits of a pass are taken to complete.
\<close>

datatype wait = WaitDone | WaitRaised string

record pass_env =
  now :: int
  cookieResetOk :: bool
  pageAlive :: bool
  verification :: verify_env
  pageBusy :: bool
  pageSignIn :: bool
  triggerOk :: bool
  arrivals :: "response list"
  attempts :: "nat \<Rightarrow> booking_env"
  attemptWaits :: "nat \<Rightarrow> wait"

type_synonym step = "ending option \<times> bot \<times> event list"

definition cookieResetIntervalMs :: int where
  "cookieResetIntervalMs = 15 * 60 * 1000"

definition verifyIntervalMs :: "config \<Rightarrow> int" where
  "verifyIntervalMs cfg = intervalMins cfg * 60 * 1000"

definition cookieResetStep :: "pass_env \<Rightarrow> bot \<Rightarrow> step" where
  "cookieResetStep e s =
     (if \<not> bookingInProgress s \<and> now e - lastCookieReset s > cookieResetIntervalMs
      then (if cookieResetOk e then (None, s\<lparr>lastCookieReset := now e\<rparr>, [EvLogin])
            else (Some Restart, s, [EvLogin]))
      else (None, s, []))"

definition livenessStep :: "pass_env \<Rightarrow> bot \<Rightarrow> step" where
  "livenessStep e s =
     (if checkCount s mod 100 = 0
      then (if pageAlive e then (None, s, []) else (Some Restart, s, []))
      else (None, s, []))"

definition verifyStep :: "config \<Rightarrow> pass_env \<Rightarrow> bot \<Rightarrow> step" where
  "verifyStep cfg e s =
     (if \<not> bookingInProgress s \<and> now e - lastVerifyTime s > verifyIntervalMs cfg
      then (case verifyDataFreshness cfg (verification e) s of
              (dataIsFresh, s') \<Rightarrow>
                (if \<not> dataIsFresh then (Some Restart, s', [EvVerify (bookingInProgress s)])
                 else (None, s', [EvVerify (bookingInProgress s)])))
      else (None, s, []))"

definition busyStep :: "pass_env \<Rightarrow> bot \<Rightarrow> step" where
  "busyStep e s =
     (if \<not> bookingInProgress s \<and> checkCount s mod 50 = 0
      then (if pageBusy e then (Some Continue, s, [])
            else if pageSignIn e then (Some Restart, s, [])
            else (None, s, []))
      else (None, s, []))"

text \<open>\<^verbatim>\<open>resetSelection\<close> and \<^verbatim>\<open>waitForAvailableSlot\<close>: the slot read is \<open>availableDate\<close>.\<close>

definition observe :: "(string \<Rightarrow> jsdate) \<Rightarrow> pass_env \<Rightarrow> bot \<Rightarrow> bot" where
  "observe D e s =
     listen D (arrivals e) (if triggerOk e then s\<lparr>lastRequestTime := now e\<rparr> else s)"

text \<open>
  The handler of the \<^verbatim>\<open>try\<close> block around the body of the loop: after a second it goes on
  to the next pass, unless the message of the error contains \<^verbatim>\<open>closed\<close> or \<^verbatim>\<open>Target\<close>; then
  the browser is closed and \<^verbatim>\<open>runBot\<close> is called again.
\<close>

definition loopCatch :: "string \<Rightarrow> ending" where
  "loopCatch msg =
     (if str_includes msg ''closed'' \<or> str_includes msg ''Target'' then Restart else Continue)"

text \<open>
  The loop \<^verbatim>\<open>for (let attempt = 1; attempt <= 3; attempt++)\<close>. \<^verbatim>\<open>performBooking\<close> handles
  every error of its own body, so the handler around the call is never entered. The wait
  that follows a failed attempt is not inside that handler: when it raises, the rest of the
  pass is skipped and the handler of the loop body takes over.
\<close>

function bookingLoop :: "nat \<Rightarrow> (nat \<Rightarrow> booking_env) \<Rightarrow> (nat \<Rightarrow> wait) \<Rightarrow> bot \<Rightarrow> step" where
  "bookingLoop attempt envs waits s =
     (if attempt \<le> 3
      then (case performBooking (envs attempt) s of
              (None, s') \<Rightarrow> (Some Hung, s', [EvAttempt attempt (bookingInProgress s)])
            | (Some booked, s') \<Rightarrow>
                (if booked then (Some (Exited 0), s', [EvAttempt attempt (bookingInProgress s)])
                 else (case waits attempt of
                         WaitRaised msg \<Rightarrow>
                           (Some (loopCatch msg), s', [EvAttempt attempt (bookingInProgress s)])
                       | WaitDone \<Rightarrow>
                           (case bookingLoop (attempt + 1) envs waits s' of
                              (fin, s'', evs) \<Rightarrow>
                                (fin, s'', EvAttempt attempt (bookingInProgress s) # evs)))))
      else (None, s, []))"
  by pat_completeness auto
termination
  by (relation "measure (\<lambda>(attempt, envs, waits, s). 4 - attempt)") auto

text \<open>
  The booking block of a pass: the flag is set before the attempts and cleared after the
  loop over them; an exit, an attempt that does not return, or a wait that raises leaves
  the block before the flag is cleared.
\<close>

definition bookingStep :: "config \<Rightarrow> (string \<Rightarrow> jsdate) \<Rightarrow> pass_env \<Rightarrow> bot \<Rightarrow> step" where
  "bookingStep cfg D e s =
     (case availableDate s of
        None \<Rightarrow> (None, s, [])
      | Some sl \<Rightarrow>
          (if isDateInRange D (date sl) (startDate cfg) (endDate cfg)
           then (case bookingLoop 1 (attempts e) (attemptWaits e) (s\<lparr>bookingInProgress := True\<rparr>) of
                   (Some fin, s', evs) \<Rightarrow> (Some fin, s', evs)
                 | (None, s', evs) \<Rightarrow> (None, s'\<lparr>bookingInProgress := False\<rparr>, evs))
           else (None, s, [])))"

definition statusStep :: "pass_env \<Rightarrow> bot \<Rightarrow> bot" where
  "statusStep e s =
     (if now e - lastTelegramUpdate s > 60000 then s\<lparr>lastTelegramUpdate := now e\<rparr> else s)"

text \<open>Sequencing: a step that ends the pass skips the steps after it.\<close>

definition andThen :: "step \<Rightarrow> (bot \<Rightarrow> step) \<Rightarrow> step" where
  "andThen r f =
     (case r of
        (Some fin, s, evs) \<Rightarrow> (Some fin, s, evs)
      | (None, s, evs) \<Rightarrow> (case f s of (fin, s', evs') \<Rightarrow> (fin, s', evs @ evs')))"

text \<open>The checks of a pass that come before the re-query.\<close>

definition preChecks :: "config \<Rightarrow> pass_env \<Rightarrow> bot \<Rightarrow> step" where
  "preChecks cfg e s =
     andThen (andThen (andThen (cookieResetStep e (s\<lparr>checkCount := checkCount s + 1\<rparr>))
                               (livenessStep e))
                      (verifyStep cfg e))
             (busyStep e)"

text \<open>
  One pass of \<^verbatim>\<open>while (true)\<close> in \<^verbatim>\<open>runBot\<close>, up to the wait of \<^verbatim>\<open>getDelay(targetCPM)\<close>
  milliseconds that ends it.
\<close>

definition loopPass :: "config \<Rightarrow> (string \<Rightarrow> jsdate) \<Rightarrow> pass_env \<Rightarrow> bot \<Rightarrow> ending \<times> bot \<times> event list" where
  "loopPass cfg D e s =
     (case andThen (andThen (preChecks cfg e s) (\<lambda>s1. bookingStep cfg D e (observe D e s1)))
                   (\<lambda>s2. (Some Continue, statusStep e s2, [])) of
        (Some fin, s', evs) \<Rightarrow> (fin, s', evs)
      | (None, s', evs) \<Rightarrow> (Continue, s', evs))"

text \<open>
  The loop over the passes that were observed; \<open>None\<close> when the last of them went on to a
  pass that is not in the list.
\<close>

fun monitor :: "config \<Rightarrow> (string \<Rightarrow> jsdate) \<Rightarrow> pass_env list \<Rightarrow> bot \<Rightarrow> step" where
  "monitor cfg D [] s = (None, s, [])"
| "monitor cfg D (e # es) s =
     (case loopPass cfg D e s of
        (fin, s', evs) \<Rightarrow>
          (if fin = Continue
           then (case monitor cfg D es s' of (fin', s'', evs') \<Rightarrow> (fin', s'', evs @ evs'))
           else (Some fin, s', evs)))"

text \<open>Reading a step or a run: how it ended, the state it left, the calls it made.\<close>

definition ending_of :: "'a \<times> 'b \<times> event list \<Rightarrow> 'a" where
  "ending_of r = fst r"

definition state_of :: "'a \<times> 'b \<times> event list \<Rightarrow> 'b" where
  "state_of r = fst (snd r)"

definition trace_of :: "'a \<times> 'b \<times> event list \<Rightarrow> event list" where
  "trace_of r = snd (snd r)"

fun isAttempt :: "event \<Rightarrow> bool" where
  "isAttempt (EvAttempt a b) = True"
| "isAttempt ev = False"

text \<open>The slot a pass reads after its checks, when it gets that far.\<close>

definition observedSlot :: "config \<Rightarrow> (string \<Rightarrow> jsdate) \<Rightarrow> pass_env \<Rightarrow> bot \<Rightarrow> slot option" where
  "observedSlot cfg D e s = availableDate (observe D e (state_of (preChecks cfg e s)))"

section \<open>Sessions of the engine with freshness verification\<close>

text \<open>
  What one call of \<^verbatim>\<open>runBot\<close> meets before and in its monitoring loop. A failed step other
  than the proxy check raises into the handler at the end of \<^verbatim>\<open>runBot\<close>, which waits ten
  seconds and calls \<^verbatim>\<open>runBot\<close> again. There is no count of failed logins and no ban list in
  this file.
\<close>

record session =
  proxyOk :: bool
  launchOk :: bool
  loginOk :: bool
  navigationOk :: bool
  startedAt :: int
  passes :: "pass_env list"

fun runBot :: "config \<Rightarrow> (string \<Rightarrow> jsdate) \<Rightarrow> session list \<Rightarrow> bot \<Rightarrow> step" where
  "runBot cfg D [] s = (None, s, [])"
| "runBot cfg D (ss # rest) s =
     (if proxyEnabled cfg \<and> \<not> proxyOk ss then (Some (Exited 1), s, [])
      else if \<not> launchOk ss then runBot cfg D rest s
      else if \<not> (loginOk ss \<and> navigationOk ss)
      then (case runBot cfg D rest s of (fin, s', evs) \<Rightarrow> (fin, s', EvLogin # evs))
      else (case monitor cfg D (passes ss)
                   (s\<lparr>checkCount := 0, lastCookieReset := startedAt ss,
                      lastVerifyTime := startedAt ss, lastTelegramUpdate := startedAt ss\<rparr>) of
              (Some fin, s', evs) \<Rightarrow>
                (if fin = Restart
                 then (case runBot cfg D rest s' of
                         (fin', s'', evs') \<Rightarrow> (fin', s'', EvLogin # evs @ evs'))
                 else (Some fin, s', EvLogin # evs))
            | (None, s', evs) \<Rightarrow> (None, s', EvLogin # evs)))"

section \<open>Sessions of the bot with the ban list\<close>

text \<open>
  Modelled from the spec: the module \<^verbatim>\<open>ban_tracker\<close> that \<^verbatim>\<open>ok.js\<close> requires is not among
  the sources. The spec describes a ban record as email, reason and time of the ban, kept
  across restarts and appended to during a run, and a credential as banned once a record
  for it is present.
\<close>

record ban_record =
  bannedEmail :: string
  banReason :: string
  bannedAt :: int

text \<open>
  Modelled from the spec: \<^verbatim>\<open>banAccount\<close> of the missing module \<^verbatim>\<open>ban_tracker\<close>; it adds a
  record for the credential to the list.
\<close>

definition banAccount :: "ban_record list \<Rightarrow> string \<Rightarrow> string \<Rightarrow> int \<Rightarrow> ban_record list" where
  "banAccount bans email reason tm =
     bans @ [\<lparr>bannedEmail = email, banReason = reason, bannedAt = tm\<rparr>]"

text \<open>
  Modelled from the spec: \<^verbatim>\<open>isAccountBanned\<close> of the missing module \<^verbatim>\<open>ban_tracker\<close>; a
  credential is banned once a record for it is in the list.
\<close>

definition isAccountBanned :: "ban_record list \<Rightarrow> string \<Rightarrow> bool" where
  "isAccountBanned bans email = (email \<in> set (map bannedEmail bans))"

text \<open>
  The state of \<^verbatim>\<open>ok.js\<close> that decides about logins: the counter of the module, which a new
  process starts at zero, and the ban list, which outlives the process.
\<close>

record ok_state =
  consecutiveLoginFailures :: nat
  banList :: "ban_record list"

text \<open>
  What one call of \<^verbatim>\<open>runBot\<close> in \<^verbatim>\<open>ok.js\<close> meets, in the order of the code: the browser
  does not launch; \<^verbatim>\<open>login\<close> finds the system busy, finds the account locked before or
  after submitting, or raises (the page did not load, or it is still on \<^verbatim>\<open>sign_in\<close>); the
  navigation fails; the monitoring loop finds the system busy, loses the session, books,
  or raises out of the loop. A run is given the sessions that came to an end, in order.
\<close>

datatype ok_session =
    LaunchFails
  | LoginBusy
  | LoginLocked string
  | LoginLockedAfter
  | LoginRaises
  | NavigationFails
  | MonitorBusy
  | SessionLost
  | Booked
  | LoopRaises

text \<open>
  How a run of the process stands after the sessions that were observed: it exited with a
  code, \<^verbatim>\<open>runBot\<close> returned, or every session ended in a new call of \<^verbatim>\<open>runBot\<close>, which has
  passed the two checks at its start and is about to launch the browser.
\<close>

datatype ok_ending = OkExited int | OkReturned | OkRunning

fun runBotOk :: "string \<Rightarrow> int \<Rightarrow> ok_session list \<Rightarrow> ok_state \<Rightarrow> ok_ending \<times> ok_state \<times> event list" where
  "runBotOk email tm sessions st =
     (if isAccountBanned (banList st) email then (OkExited 10, st, [])
      else if consecutiveLoginFailures st \<ge> 3
      then (OkExited 1,
            st\<lparr>banList := banAccount (banList st) email ''Too many login failures'' tm\<rparr>, [])
      else (case sessions of
              [] \<Rightarrow> (OkRunning, st, [])
            | LaunchFails # rest \<Rightarrow> (OkReturned, st, [])
            | LoginBusy # rest \<Rightarrow> (OkExited 20, st, [EvLogin])
            | LoginLocked lockMsg # rest \<Rightarrow>
                (OkExited 10, st\<lparr>banList := banAccount (banList st) email lockMsg tm\<rparr>, [EvLogin])
            | LoginLockedAfter # rest \<Rightarrow>
                (OkExited 10,
                 st\<lparr>banList := banAccount (banList st) email ''Account locked post-login'' tm\<rparr>,
                 [EvLogin])
            | LoginRaises # rest \<Rightarrow>
                (let st1 = st\<lparr>consecutiveLoginFailures := consecutiveLoginFailures st + 1\<rparr> in
                 if consecutiveLoginFailures st1 < 3
                 then (case runBotOk email tm rest st1 of
                         (fin, st2, evs) \<Rightarrow> (fin, st2, EvLogin # evs))
                 else (OkExited 10,
                       st1\<lparr>banList := banAccount (banList st1) email
                                         ''Max login attempts reached (3 failures)'' tm\<rparr>,
                       [EvLogin]))
            | NavigationFails # rest \<Rightarrow>
                (case runBotOk email tm rest (st\<lparr>consecutiveLoginFailures := 0\<rparr>) of
                   (fin, st2, evs) \<Rightarrow> (fin, st2, EvLogin # evs))
            | MonitorBusy # rest \<Rightarrow> (OkExited 20, st\<lparr>consecutiveLoginFailures := 0\<rparr>, [EvLogin])
            | SessionLost # rest \<Rightarrow>
                (case runBotOk email tm rest (st\<lparr>consecutiveLoginFailures := 0\<rparr>) of
                   (fin, st2, evs) \<Rightarrow> (fin, st2, EvLogin # evs))
            | Booked # rest \<Rightarrow> (OkReturned, st\<lparr>consecutiveLoginFailures := 0\<rparr>, [EvLogin])
            | LoopRaises # rest \<Rightarrow> (OkReturned, st\<lparr>consecutiveLoginFailures := 0\<rparr>, [EvLogin])))"

section \<open>Example inputs\<close>

text \<open>
  A configuration with the date window of the scenarios and a verification account; the
  state of the module when it is loaded; an availability response whose first record has
  the given date, received on 2026-01-01 on a machine set to UTC, and one received that day
  on a machine in Toronto, where the local midnight is five hours later; a page
  on which the form stays after the submission, and one on which it is gone, the time
  having arrived with the first step; a pass of the loop at a given time in which the
  checks find nothing, the given responses arrive, and every booking attempt leaves the
  form in place; such a pass in which the wait after the third attempt raises an error with
  the given message; a session of the engine whose login fails, and one that gets to monitoring with the
  given passes; and the state of a new process of the bot with the ban list.
\<close>

definition exampleConfig :: config where
  "exampleConfig =
     \<lparr>startDate = exampleDate ''2026-01-01'', endDate = exampleDate ''2026-03-31'',
      targetCPM = 240, verifyEmail = ''second@example.org'', verifyPassword = ''secret'',
      intervalMins = 5, proxyEnabled = False\<rparr>"

definition initialBot :: bot where
  "initialBot =
     \<lparr>availableDate = None, availableTime = None, lastResponseTime = 0,
      closestSlotFound = None, lastRequestTime = 0, lastLatency = 0,
      bookingInProgress = False, verifyBrowser = False, lastVerifyTime = 0,
      checkCount = 0, lastCookieReset = 0, lastTelegramUpdate = 0\<rparr>"

definition daysResponse :: "string \<Rightarrow> int \<Rightarrow> response" where
  "daysResponse d t =
     \<lparr>url = ''/days/94.json?appointments[expedite]=false'',
      payload = SlotArray [\<lparr>date = d\<rparr>], receivedAt = t, todayMidnight = 1767225600000\<rparr>"


definition formStays :: booking_env where
  "formStays =
     \<lparr>setDateRaises = False, timeDuringSetDate = Some ''09:00'', polls = [],
      setTimeRaises = False, confirmRaises = False, formLookup = Found\<rparr>"

definition formGone :: booking_env where
  "formGone = formStays\<lparr>formLookup := NotFound\<rparr>"

definition examplePass :: "int \<Rightarrow> response list \<Rightarrow> verify_outcome \<Rightarrow> pass_env" where
  "examplePass t rs v =
     \<lparr>now = t, cookieResetOk = True, pageAlive = True,
      verification = \<lparr>outcome = v, finishedAt = t + 9000\<rparr>,
      pageBusy = False, pageSignIn = False, triggerOk = True, arrivals = rs,
      attempts = (\<lambda>n. formStays), attemptWaits = (\<lambda>n. WaitDone)\<rparr>"

definition lostPagePass :: "int \<Rightarrow> response list \<Rightarrow> string \<Rightarrow> pass_env" where
  "lostPagePass t rs msg =
     (examplePass t rs VerifyThrew)
       \<lparr>attemptWaits := (\<lambda>n. if n = 3 then WaitRaised msg else WaitDone)\<rparr>"

definition loginFails :: session where
  "loginFails =
     \<lparr>proxyOk = True, launchOk = True, loginOk = False, navigationOk = False,
      startedAt = 0, passes = []\<rparr>"

definition exampleSession :: "pass_env list \<Rightarrow> session" where
  "exampleSession ps =
     \<lparr>proxyOk = True, launchOk = True, loginOk = True, navigationOk = True,
      startedAt = 0, passes = ps\<rparr>"

definition freshProcess :: "ban_record list \<Rightarrow> ok_state" where
  "freshProcess bans = \<lparr>consecutiveLoginFailures = 0, banList = bans\<rparr>"

section \<open>Properties of the cadence\<close>

lemma floor_cycle: "\<lfloor>60000 / rat_of_int n - 100\<rfloor> = 60000 div n - 100"
proof -
  have "\<lfloor>rat_of_int 60000 / rat_of_int n\<rfloor> = 60000 div n"
    by (rule floor_divide_of_int_eq)
  then have "\<lfloor>60000 / rat_of_int n\<rfloor> = 60000 div n"
    by simp
  then show ?thesis
    by (simp add: floor_diff_numeral)
qed

text \<open>
  C9. For every target rate the configuration can hold (a non-zero integer), the delay of
  \<open>getDelay\<close> is \<open>max(0, floor(60000 / targetCPM - 100))\<close> milliseconds, which is the
  integer quotient less the overhead of 100 ms clamped at zero; it is never negative; and
  a configured rate is never zero, so the delay is always defined. At 240 checks per
  minute the delay is 150 ms.
\<close>

theorem getDelay_is_clamped_cycle:
  assumes "cpm \<noteq> 0"
  shows "getDelay cpm = Some (max 0 \<lfloor>60000 / rat_of_int cpm - 100\<rfloor>)
       \<and> getDelay cpm = Some (max 0 (60000 div cpm - 100))
       \<and> (\<exists>d. getDelay cpm = Some d \<and> 0 \<le> d)
       \<and> getDelay (parseIntOr parsed 240) \<noteq> None
       \<and> getDelay 240 = Some 150"
proof -
  have a: "getDelay cpm = Some (max 0 \<lfloor>60000 / rat_of_int cpm - 100\<rfloor>)"
    using assms by (simp add: getDelay_def)
  have b: "getDelay cpm = Some (max 0 (60000 div cpm - 100))"
    using a by (simp only: floor_cycle)
  have c: "\<exists>d. getDelay cpm = Some d \<and> 0 \<le> d"
    using a by simp
  have d: "getDelay (parseIntOr parsed 240) \<noteq> None"
    by (simp add: getDelay_def parseIntOr_def split: option.split)
  have e: "getDelay 240 = Some 150"
    by (simp add: getDelay_def)
  from a b c d e show ?thesis
    by blast
qed

theorem getDelay_is_clamped_cycle_witness:
  "getDelay 7 = Some 8471 \<and> getDelay 1000 = Some 0 \<and> getDelay (- 5) = Some 0"
proof -
  have n: "(7 :: int) \<noteq> 0" "(1000 :: int) \<noteq> 0" "(- 5 :: int) \<noteq> 0"
    by simp_all
  have "getDelay 7 = Some (max 0 (60000 div 7 - 100))"
    using getDelay_is_clamped_cycle [OF n(1)] by blast
  moreover have "getDelay 1000 = Some (max 0 (60000 div 1000 - 100))"
    using getDelay_is_clamped_cycle [OF n(2)] by blast
  moreover have "getDelay (- 5) = Some (max 0 (60000 div (- 5) - 100))"
    using getDelay_is_clamped_cycle [OF n(3)] by blast
  ultimately show ?thesis
    by simp
qed

lemma getRandomDelay_some:
  "cpm \<noteq> 0 \<Longrightarrow> \<exists>d. getRandomDelay cpm r = Some d \<and> 1000 \<le> d"
  by (simp add: getRandomDelay_def Let_def)

lemma delays_sum:
  "list_all2 (\<lambda>r d. getRandomDelay cpm r = Some d) rs ds \<Longrightarrow> cpm \<noteq> 0 \<Longrightarrow>
     1000 * int (length ds) \<le> sum_list ds"
proof (induction rs ds rule: list_all2_induct)
  case Nil
  then show ?case by simp
next
  case (Cons r rs d ds)
  from getRandomDelay_some [OF Cons.prems, of r] Cons.hyps(1) have "1000 \<le> d"
    by auto
  with Cons.IH [OF Cons.prems] show ?case
    by simp
qed

text \<open>
  C10. In \<^verbatim>\<open>visa-bot.js\<close>, for every positive target rate and every outcome of the random
  jitter, \<open>getRandomDelay\<close> returns a delay of at least 1000 ms. So any \<open>n\<close> successive
  delays add up to at least \<open>n\<close> seconds, and the checks separated by them that fit into
  one minute are at most 60, whatever the configured rate.
\<close>

theorem getRandomDelay_at_least_one_second:
  assumes "0 < cpm"
  shows "(\<exists>d. getRandomDelay cpm r = Some d \<and> 1000 \<le> d)
       \<and> (list_all2 (\<lambda>r d. getRandomDelay cpm r = Some d) rs ds \<longrightarrow>
            1000 * int (length ds) \<le> sum_list ds
            \<and> (sum_list ds \<le> 60000 \<longrightarrow> length ds \<le> 60))"
proof -
  from assms have nz: "cpm \<noteq> 0"
    by simp
  have a: "\<exists>d. getRandomDelay cpm r = Some d \<and> 1000 \<le> d"
    using nz by (rule getRandomDelay_some)
  have b: "1000 * int (length ds) \<le> sum_list ds"
    if "list_all2 (\<lambda>r d. getRandomDelay cpm r = Some d) rs ds"
    using that nz by (rule delays_sum)
  have c: "length ds \<le> 60"
    if "list_all2 (\<lambda>r d. getRandomDelay cpm r = Some d) rs ds" and "sum_list ds \<le> 60000"
    using b [OF that(1)] that(2) by simp
  from a b c show ?thesis
    by blast
qed

theorem getRandomDelay_at_least_one_second_witness:
  "(0 :: int) < 20 \<and> getRandomDelay 240 0 = Some 1000 \<and> getRandomDelay 20 (9 / 10) = Some 3360
     \<and> 1000 * int (length [2550, 3360 :: int]) \<le> sum_list [2550, 3360]"
proof -
  have h: "(0 :: int) < 20"
    by simp
  have l: "list_all2 (\<lambda>r d. getRandomDelay 20 r = Some d) [0, 9 / 10] [2550, 3360]"
    by (simp add: getRandomDelay_def)
  show ?thesis
    using getRandomDelay_at_least_one_second [OF h, of 0 "[0, 9 / 10]" "[2550, 3360]"] l
    by (simp add: getRandomDelay_def)
qed

section \<open>Steps, passes and runs\<close>

declare bookingLoop.simps [simp del]

declare runBotOk.simps [simp del]

lemma ending_of_triple [simp]: "ending_of (a, b, c) = a"
  by (simp add: ending_of_def)

lemma state_of_triple [simp]: "state_of (a, b, c) = b"
  by (simp add: state_of_def)

lemma trace_of_triple [simp]: "trace_of (a, b, c) = c"
  by (simp add: trace_of_def)

lemma andThen_Some [simp]: "andThen (Some fin, s, evs) f = (Some fin, s, evs)"
  by (simp add: andThen_def)

lemma andThen_None [simp]:
  "andThen (None, s, evs) f = (case f s of (fin, s', evs') \<Rightarrow> (fin, s', evs @ evs'))"
  by (simp add: andThen_def)

lemma performBooking_flag [simp]:
  "bookingInProgress (snd (performBooking e s)) = bookingInProgress s"
  by (simp add: performBooking_def Let_def split: option.splits)

lemma performBooking_date [simp]:
  "availableDate (snd (performBooking e s)) = availableDate s"
  by (simp add: performBooking_def Let_def split: option.splits)

lemma performBooking_fst: "fst (performBooking e s) = fst (performBooking e s')"
  by (simp add: performBooking_def Let_def split: option.splits)

lemma bookingLoop_flag:
  "bookingInProgress (state_of (bookingLoop a envs waits s)) = bookingInProgress s"
proof (induction a envs waits s rule: bookingLoop.induct)
  case (1 attempt envs waits s)
  show ?case
  proof (cases "attempt \<le> 3")
    case False
    then show ?thesis
      by (simp add: bookingLoop.simps [of attempt] state_of_def)
  next
    case True
    obtain r s' where pb: "performBooking (envs attempt) s = (r, s')"
      by (cases "performBooking (envs attempt) s")
    then have fl: "bookingInProgress s' = bookingInProgress s"
      using performBooking_flag [of "envs attempt" s] by simp
    show ?thesis
    proof (cases r)
      case None
      with True pb fl show ?thesis
        by (simp add: bookingLoop.simps [of attempt] state_of_def)
    next
      case (Some booked)
      show ?thesis
      proof (cases booked)
        case True
        with \<open>attempt \<le> 3\<close> pb fl Some show ?thesis
          by (simp add: bookingLoop.simps [of attempt] state_of_def)
      next
        case False
        show ?thesis
        proof (cases "waits attempt")
          case (WaitRaised msg)
          with \<open>attempt \<le> 3\<close> pb fl Some False show ?thesis
            by (simp add: bookingLoop.simps [of attempt] state_of_def)
        next
          case WaitDone
          from "1.IH" [OF \<open>attempt \<le> 3\<close> pb [symmetric] Some False WaitDone]
          have "bookingInProgress (state_of (bookingLoop (attempt + 1) envs waits s')) = bookingInProgress s'" .
          with \<open>attempt \<le> 3\<close> pb fl Some False WaitDone show ?thesis
            by (auto simp add: bookingLoop.simps [of attempt] state_of_def split: prod.splits)
        qed
      qed
    qed
  qed
qed

lemma bookingLoop_trace:
  "\<exists>k. k \<le> 4 - a \<and> (a \<le> 3 \<longrightarrow> 1 \<le> k) \<and>
       trace_of (bookingLoop a envs waits s) = map (\<lambda>n. EvAttempt n (bookingInProgress s)) [a..<a + k]"
proof (induction a envs waits s rule: bookingLoop.induct)
  case (1 attempt envs waits s)
  let ?b = "bookingInProgress s"
  show ?case
  proof (cases "attempt \<le> 3")
    case False
    then have "trace_of (bookingLoop attempt envs waits s) = []"
      by (simp add: bookingLoop.simps [of attempt] trace_of_def)
    with False show ?thesis
      by (intro exI [of _ 0]) simp
  next
    case True
    obtain r s' where pb: "performBooking (envs attempt) s = (r, s')"
      by (cases "performBooking (envs attempt) s")
    then have fl: "bookingInProgress s' = ?b"
      using performBooking_flag [of "envs attempt" s] by simp
    have one: "[attempt..<attempt + 1] = [attempt]"
      by simp
    show ?thesis
    proof (cases r)
      case None
      with True pb have "trace_of (bookingLoop attempt envs waits s) = [EvAttempt attempt ?b]"
        by (simp add: bookingLoop.simps [of attempt] trace_of_def)
      with True one show ?thesis
        by (intro exI [of _ 1]) simp
    next
      case (Some booked)
      show ?thesis
      proof (cases booked)
        case True
        with \<open>attempt \<le> 3\<close> pb Some
        have "trace_of (bookingLoop attempt envs waits s) = [EvAttempt attempt ?b]"
          by (simp add: bookingLoop.simps [of attempt] trace_of_def)
        with \<open>attempt \<le> 3\<close> one show ?thesis
          by (intro exI [of _ 1]) simp
      next
        case False
        show ?thesis
        proof (cases "waits attempt")
          case (WaitRaised msg)
          with \<open>attempt \<le> 3\<close> pb Some False
          have "trace_of (bookingLoop attempt envs waits s) = [EvAttempt attempt ?b]"
            by (simp add: bookingLoop.simps [of attempt] trace_of_def)
          with \<open>attempt \<le> 3\<close> one show ?thesis
            by (intro exI [of _ 1]) simp
        next
          case WaitDone
          from "1.IH" [OF \<open>attempt \<le> 3\<close> pb [symmetric] Some False WaitDone] fl
          obtain k where k: "k \<le> 4 - (attempt + 1)"
            and tr: "trace_of (bookingLoop (attempt + 1) envs waits s') =
                       map (\<lambda>n. EvAttempt n ?b) [attempt + 1..<attempt + 1 + k]"
            by auto
          from \<open>attempt \<le> 3\<close> pb Some False WaitDone
          have "trace_of (bookingLoop attempt envs waits s) =
                  EvAttempt attempt ?b # trace_of (bookingLoop (attempt + 1) envs waits s')"
            by (simp add: bookingLoop.simps [of attempt] trace_of_def split: prod.splits)
          with tr have "trace_of (bookingLoop attempt envs waits s) =
                          map (\<lambda>n. EvAttempt n ?b) [attempt..<attempt + (k + 1)]"
            by (simp add: upt_conv_Cons)
          moreover from k \<open>attempt \<le> 3\<close> have "k + 1 \<le> 4 - attempt"
            by simp
          ultimately show ?thesis
            by (intro exI [of _ "k + 1"]) simp
        qed
      qed
    qed
  qed
qed

lemma bookingLoop_all_fail:
  "(\<And>n st. a \<le> n \<Longrightarrow> n \<le> 3 \<Longrightarrow> fst (performBooking (envs n) st) = Some False) \<Longrightarrow>
   (\<And>n. a \<le> n \<Longrightarrow> n \<le> 3 \<Longrightarrow> waits n = WaitDone) \<Longrightarrow>
     ending_of (bookingLoop a envs waits s) = None \<and>
     trace_of (bookingLoop a envs waits s) = map (\<lambda>n. EvAttempt n (bookingInProgress s)) [a..<4]"
proof (induction a envs waits s rule: bookingLoop.induct)
  case (1 attempt envs waits s)
  let ?b = "bookingInProgress s"
  show ?case
  proof (cases "attempt \<le> 3")
    case False
    then show ?thesis
      by (simp add: bookingLoop.simps [of attempt] trace_of_def ending_of_def)
  next
    case True
    obtain r s' where pb: "performBooking (envs attempt) s = (r, s')"
      by (cases "performBooking (envs attempt) s")
    then have fl: "bookingInProgress s' = ?b"
      using performBooking_flag [of "envs attempt" s] by simp
    from "1.prems"(1) [of attempt s] True pb have r: "r = Some False"
      by simp
    from "1.prems"(2) [of attempt] True have w: "waits attempt = WaitDone"
      by simp
    have prem: "\<And>n st. attempt + 1 \<le> n \<Longrightarrow> n \<le> 3 \<Longrightarrow> fst (performBooking (envs n) st) = Some False"
      using "1.prems"(1) by simp
    have prem2: "\<And>n. attempt + 1 \<le> n \<Longrightarrow> n \<le> 3 \<Longrightarrow> waits n = WaitDone"
      using "1.prems"(2) by simp
    from "1.IH" [OF True pb [symmetric] r _ w prem prem2] fl
    have ih: "ending_of (bookingLoop (attempt + 1) envs waits s') = None"
      "trace_of (bookingLoop (attempt + 1) envs waits s') = map (\<lambda>n. EvAttempt n ?b) [attempt + 1..<4]"
      by simp_all
    from True have up: "[attempt..<4] = attempt # [attempt + 1..<4]"
      by (simp add: upt_conv_Cons)
    from True pb r w ih show ?thesis
      by (auto simp add: bookingLoop.simps [of attempt] trace_of_def ending_of_def up split: prod.splits)
  qed
qed

lemma bookingLoop_wait_raises:
  "(\<And>n st. a \<le> n \<Longrightarrow> n \<le> 3 \<Longrightarrow> fst (performBooking (envs n) st) = Some False) \<Longrightarrow>
   (\<And>n. a \<le> n \<Longrightarrow> n < 3 \<Longrightarrow> waits n = WaitDone) \<Longrightarrow>
   waits 3 = WaitRaised msg \<Longrightarrow> a \<le> 3 \<Longrightarrow>
     ending_of (bookingLoop a envs waits s) = Some (loopCatch msg) \<and>
     trace_of (bookingLoop a envs waits s) = map (\<lambda>n. EvAttempt n (bookingInProgress s)) [a..<4]"
proof (induction a envs waits s rule: bookingLoop.induct)
  case (1 attempt envs waits s)
  let ?b = "bookingInProgress s"
  from "1.prems"(4) have le: "attempt \<le> 3" .
  obtain r s' where pb: "performBooking (envs attempt) s = (r, s')"
    by (cases "performBooking (envs attempt) s")
  then have fl: "bookingInProgress s' = ?b"
    using performBooking_flag [of "envs attempt" s] by simp
  from "1.prems"(1) [of attempt s] le pb have r: "r = Some False"
    by simp
  from le have up: "[attempt..<4] = attempt # [attempt + 1..<4]"
    by (simp add: upt_conv_Cons)
  show ?case
  proof (cases "attempt = 3")
    case True
    with "1.prems"(3) have w: "waits attempt = WaitRaised msg"
      by simp
    from True have "[attempt..<4] = [attempt]"
      by (simp add: upt_conv_Cons)
    with le pb r w show ?thesis
      by (simp add: bookingLoop.simps [of attempt] trace_of_def ending_of_def)
  next
    case False
    with le have lt: "attempt < 3"
      by simp
    with "1.prems"(2) [of attempt] have w: "waits attempt = WaitDone"
      by simp
    have prem: "\<And>n st. attempt + 1 \<le> n \<Longrightarrow> n \<le> 3 \<Longrightarrow> fst (performBooking (envs n) st) = Some False"
      using "1.prems"(1) by simp
    have prem2: "\<And>n. attempt + 1 \<le> n \<Longrightarrow> n < 3 \<Longrightarrow> waits n = WaitDone"
      using "1.prems"(2) by simp
    from lt have le': "attempt + 1 \<le> 3"
      by simp
    from "1.IH" [OF le pb [symmetric] r _ w prem prem2 "1.prems"(3) le'] fl
    have ih: "ending_of (bookingLoop (attempt + 1) envs waits s') = Some (loopCatch msg)"
      "trace_of (bookingLoop (attempt + 1) envs waits s') = map (\<lambda>n. EvAttempt n ?b) [attempt + 1..<4]"
      by simp_all
    from le pb r w ih show ?thesis
      by (auto simp add: bookingLoop.simps [of attempt] trace_of_def ending_of_def up split: prod.splits)
  qed
qed

lemma verifyDataFreshness_flag [simp]:
  "bookingInProgress (snd (verifyDataFreshness cfg v s)) = bookingInProgress s"
  by (simp add: verifyDataFreshness_def verifyCatch_def Let_def split: verify_outcome.splits)

lemma onResponse_flag [simp]: "bookingInProgress (onResponse D r s) = bookingInProgress s"
  by (simp add: onResponse_def recordSlot_def Let_def split: body.splits list.splits)

lemma listen_flag [simp]: "bookingInProgress (listen D rs s) = bookingInProgress s"
  unfolding listen_def by (induction rs arbitrary: s) simp_all

lemma observe_flag [simp]: "bookingInProgress (observe D e s) = bookingInProgress s"
  by (simp add: observe_def)

lemma andThen_trace:
  "trace_of (andThen r f) =
     trace_of r @ (case ending_of r of None \<Rightarrow> trace_of (f (state_of r)) | Some fin \<Rightarrow> [])"
  by (cases r) (auto simp add: andThen_def trace_of_def ending_of_def state_of_def split: option.splits prod.splits)

lemma andThen_state:
  "state_of (andThen r f) =
     (case ending_of r of None \<Rightarrow> state_of (f (state_of r)) | Some fin \<Rightarrow> state_of r)"
  by (cases r) (auto simp add: andThen_def trace_of_def ending_of_def state_of_def split: option.splits prod.splits)

lemma andThen_ending:
  "ending_of (andThen r f) =
     (case ending_of r of None \<Rightarrow> ending_of (f (state_of r)) | Some fin \<Rightarrow> Some fin)"
  by (cases r) (auto simp add: andThen_def trace_of_def ending_of_def state_of_def split: option.splits prod.splits)

lemma cookieResetStep_flag [simp]:
  "bookingInProgress (state_of (cookieResetStep e s)) = bookingInProgress s"
  by (simp add: cookieResetStep_def state_of_def)

lemma livenessStep_flag [simp]:
  "bookingInProgress (state_of (livenessStep e s)) = bookingInProgress s"
  by (simp add: livenessStep_def state_of_def)

lemma verifyStep_flag [simp]:
  "bookingInProgress (state_of (verifyStep cfg e s)) = bookingInProgress s"
proof -
  obtain fresh s' where v: "verifyDataFreshness cfg (verification e) s = (fresh, s')"
    by (cases "verifyDataFreshness cfg (verification e) s")
  with verifyDataFreshness_flag [of cfg "verification e" s]
  have "bookingInProgress s' = bookingInProgress s"
    by simp
  with v show ?thesis
    by (simp add: verifyStep_def state_of_def)
qed

lemma busyStep_flag [simp]:
  "bookingInProgress (state_of (busyStep e s)) = bookingInProgress s"
  by (simp add: busyStep_def state_of_def)

lemma cookieResetStep_trace:
  "trace_of (cookieResetStep e s) =
     (if \<not> bookingInProgress s \<and> now e - lastCookieReset s > cookieResetIntervalMs
      then [EvLogin] else [])"
  by (simp add: cookieResetStep_def trace_of_def)

lemma livenessStep_trace [simp]: "trace_of (livenessStep e s) = []"
  by (simp add: livenessStep_def trace_of_def)

lemma verifyStep_trace:
  "trace_of (verifyStep cfg e s) =
     (if \<not> bookingInProgress s \<and> now e - lastVerifyTime s > verifyIntervalMs cfg
      then [EvVerify False] else [])"
  by (simp add: verifyStep_def trace_of_def split: prod.splits)

lemma busyStep_trace [simp]: "trace_of (busyStep e s) = []"
  by (simp add: busyStep_def trace_of_def)

lemma preChecks_flag: "bookingInProgress (state_of (preChecks cfg e s)) = bookingInProgress s"
  by (simp add: preChecks_def andThen_state split: option.splits)

lemma preChecks_trace:
  "ev \<in> set (trace_of (preChecks cfg e s)) \<Longrightarrow> ev = EvLogin \<or> ev = EvVerify False"
  by (simp add: preChecks_def andThen_trace cookieResetStep_trace verifyStep_trace
      split: option.splits if_splits) blast

lemma preChecks_quiet: "bookingInProgress s \<Longrightarrow> trace_of (preChecks cfg e s) = []"
  by (simp add: preChecks_def andThen_trace andThen_state cookieResetStep_trace verifyStep_trace
      split: option.splits)

lemma finish_trace:
  "trace_of (case x of (Some fin, s', evs) \<Rightarrow> (fin, s', evs) | (None, s', evs) \<Rightarrow> (Continue, s', evs))
     = trace_of x"
  by (simp add: trace_of_def split: prod.splits option.splits)

lemma finish_state:
  "state_of (case x of (Some fin, s', evs) \<Rightarrow> (fin, s', evs) | (None, s', evs) \<Rightarrow> (Continue, s', evs))
     = state_of x"
  by (simp add: state_of_def split: prod.splits option.splits)

lemma finish_ending:
  "ending_of (case x of (Some fin, s', evs) \<Rightarrow> (fin, s', evs) | (None, s', evs) \<Rightarrow> (Continue, s', evs))
     = (case ending_of x of Some fin \<Rightarrow> fin | None \<Rightarrow> Continue)"
  by (simp add: ending_of_def split: prod.splits option.splits)

lemma loopPass_trace:
  "trace_of (loopPass cfg D e s) =
     trace_of (preChecks cfg e s) @
     (case ending_of (preChecks cfg e s) of
        None \<Rightarrow> trace_of (bookingStep cfg D e (observe D e (state_of (preChecks cfg e s))))
      | Some fin \<Rightarrow> [])"
  unfolding loopPass_def finish_trace
  by (simp add: andThen_trace andThen_ending andThen_state split: option.splits)

lemma bookingStep_trace:
  "trace_of (bookingStep cfg D e s) =
     (case availableDate s of
        None \<Rightarrow> []
      | Some sl \<Rightarrow>
          (if isDateInRange D (date sl) (startDate cfg) (endDate cfg)
           then trace_of (bookingLoop 1 (attempts e) (attemptWaits e) (s\<lparr>bookingInProgress := True\<rparr>)) else []))"
  by (auto simp add: bookingStep_def trace_of_def split: option.splits prod.splits)

lemma isDateInRange_iff:
  "isDateInRange D str lo hi \<longleftrightarrow>
     (\<exists>t a b. D str = Some t \<and> lo = Some a \<and> hi = Some b \<and> a \<le> t \<and> t \<le> b)"
  by (auto simp add: isDateInRange_def date_ge_def date_le_def Let_def split: option.splits)

lemma loopPass_ending:
  "ending_of (loopPass cfg D e s) =
     (case ending_of (preChecks cfg e s) of
        Some fin \<Rightarrow> fin
      | None \<Rightarrow>
          (case ending_of (bookingStep cfg D e (observe D e (state_of (preChecks cfg e s)))) of
             Some fin \<Rightarrow> fin
           | None \<Rightarrow> Continue))"
  unfolding loopPass_def finish_ending
  by (simp add: andThen_ending andThen_state split: option.splits)

lemma loopPass_state:
  "state_of (loopPass cfg D e s) =
     (case ending_of (preChecks cfg e s) of
        Some fin \<Rightarrow> state_of (preChecks cfg e s)
      | None \<Rightarrow>
          (case ending_of (bookingStep cfg D e (observe D e (state_of (preChecks cfg e s)))) of
             Some fin \<Rightarrow> state_of (bookingStep cfg D e (observe D e (state_of (preChecks cfg e s))))
           | None \<Rightarrow>
               statusStep e
                 (state_of (bookingStep cfg D e (observe D e (state_of (preChecks cfg e s)))))))"
  unfolding loopPass_def finish_state
  by (simp add: andThen_ending andThen_state split: option.splits)

lemma statusStep_flag [simp]: "bookingInProgress (statusStep e s) = bookingInProgress s"
  by (simp add: statusStep_def)

lemma bookingStep_events:
  "\<exists>k\<le>3. trace_of (bookingStep cfg D e s) = map (\<lambda>n. EvAttempt n True) [1..<1 + k]"
proof -
  from bookingLoop_trace [of 1 "attempts e" "attemptWaits e" "s\<lparr>bookingInProgress := True\<rparr>"]
  obtain k where "k \<le> 3"
    and "trace_of (bookingLoop 1 (attempts e) (attemptWaits e) (s\<lparr>bookingInProgress := True\<rparr>)) =
           map (\<lambda>n. EvAttempt n True) [1..<1 + k]"
    by auto
  then show ?thesis
    by (cases "availableDate s") (auto simp add: bookingStep_trace intro: exI [of _ 0])
qed

lemma bookingStep_entered:
  "(\<exists>a b. EvAttempt a b \<in> set (trace_of (bookingStep cfg D e s))) \<longleftrightarrow>
     (\<exists>sl. availableDate s = Some sl \<and> isDateInRange D (date sl) (startDate cfg) (endDate cfg))"
proof (cases "availableDate s")
  case None
  then show ?thesis
    by (simp add: bookingStep_trace)
next
  case (Some sl)
  show ?thesis
  proof (cases "isDateInRange D (date sl) (startDate cfg) (endDate cfg)")
    case False
    with Some show ?thesis
      by (simp add: bookingStep_trace)
  next
    case True
    from bookingLoop_trace [of 1 "attempts e" "attemptWaits e" "s\<lparr>bookingInProgress := True\<rparr>"]
    obtain k where "1 \<le> k"
      and "trace_of (bookingLoop 1 (attempts e) (attemptWaits e) (s\<lparr>bookingInProgress := True\<rparr>)) =
             map (\<lambda>n. EvAttempt n True) [1..<1 + k]"
      by auto
    then have "EvAttempt 1 True \<in> set (trace_of (bookingLoop 1 (attempts e) (attemptWaits e) (s\<lparr>bookingInProgress := True\<rparr>)))"
      by auto
    with Some True have "EvAttempt 1 True \<in> set (trace_of (bookingStep cfg D e s))"
      by (simp add: bookingStep_trace)
    with Some True show ?thesis
      by blast
  qed
qed

lemma bookingStep_after:
  "trace_of (bookingStep cfg D e s) \<noteq> [] \<Longrightarrow>
     bookingInProgress (state_of (bookingStep cfg D e s)) \<longleftrightarrow>
       ending_of (bookingStep cfg D e s) \<noteq> None"
proof -
  assume ne: "trace_of (bookingStep cfg D e s) \<noteq> []"
  then obtain sl where sl: "availableDate s = Some sl"
    "isDateInRange D (date sl) (startDate cfg) (endDate cfg)"
    by (auto simp add: bookingStep_trace split: option.splits if_splits)
  obtain fin s' evs where bl: "bookingLoop 1 (attempts e) (attemptWaits e) (s\<lparr>bookingInProgress := True\<rparr>) = (fin, s', evs)"
    by (cases "bookingLoop 1 (attempts e) (attemptWaits e) (s\<lparr>bookingInProgress := True\<rparr>)")
  with bookingLoop_flag [of 1 "attempts e" "attemptWaits e" "s\<lparr>bookingInProgress := True\<rparr>"]
  have "bookingInProgress s'"
    by (simp add: state_of_def)
  with sl bl show ?thesis
    by (cases fin) (simp_all add: bookingStep_def state_of_def ending_of_def)
qed

lemma loopPass_events:
  "ev \<in> set (trace_of (loopPass cfg D e s)) \<Longrightarrow>
     ev = EvLogin \<or> ev = EvVerify False \<or> (\<exists>n. ev = EvAttempt n True)"
proof -
  assume "ev \<in> set (trace_of (loopPass cfg D e s))"
  then consider "ev \<in> set (trace_of (preChecks cfg e s))"
    | "ev \<in> set (trace_of (bookingStep cfg D e (observe D e (state_of (preChecks cfg e s)))))"
    by (auto simp add: loopPass_trace split: option.splits)
  then show ?thesis
  proof cases
    case 1
    then show ?thesis
      using preChecks_trace by blast
  next
    case 2
    with bookingStep_events [of cfg D e "observe D e (state_of (preChecks cfg e s))"]
    show ?thesis
      by auto
  qed
qed

lemma monitor_events:
  "ev \<in> set (trace_of (monitor cfg D es s)) \<Longrightarrow>
     ev = EvLogin \<or> ev = EvVerify False \<or> (\<exists>n. ev = EvAttempt n True)"
proof (induction es arbitrary: s)
  case Nil
  then show ?case
    by (simp add: trace_of_def)
next
  case (Cons e es)
  obtain fin s' evs where lp: "loopPass cfg D e s = (fin, s', evs)"
    by (cases "loopPass cfg D e s")
  with loopPass_events [of _ cfg D e s]
  have evs: "\<And>x. x \<in> set evs \<Longrightarrow> x = EvLogin \<or> x = EvVerify False \<or> (\<exists>n. x = EvAttempt n True)"
    by (simp add: trace_of_def)
  show ?case
  proof (cases "fin = Continue")
    case False
    with lp Cons.prems evs show ?thesis
      by (simp add: trace_of_def)
  next
    case True
    with lp Cons.prems
    have "ev \<in> set evs \<or> ev \<in> set (trace_of (monitor cfg D es s'))"
      by (auto simp add: trace_of_def split: prod.splits)
    with evs Cons.IH show ?thesis
      by blast
  qed
qed

lemma runBot_events:
  "ev \<in> set (trace_of (runBot cfg D sessions s)) \<Longrightarrow>
     ev = EvLogin \<or> ev = EvVerify False \<or> (\<exists>n. ev = EvAttempt n True)"
proof (induction sessions arbitrary: s)
  case Nil
  then show ?case
    by (simp add: trace_of_def)
next
  case (Cons ss rest)
  let ?s0 = "s\<lparr>checkCount := 0, lastCookieReset := startedAt ss,
                 lastVerifyTime := startedAt ss, lastTelegramUpdate := startedAt ss\<rparr>"
  obtain fin s' evs where m: "monitor cfg D (passes ss) ?s0 = (fin, s', evs)"
    by (cases "monitor cfg D (passes ss) ?s0")
  with monitor_events [of _ cfg D "passes ss" ?s0]
  have evs: "\<And>x. x \<in> set evs \<Longrightarrow> x = EvLogin \<or> x = EvVerify False \<or> (\<exists>n. x = EvAttempt n True)"
    by (simp add: trace_of_def)
  from Cons.prems m
  have "ev = EvLogin \<or> ev \<in> set evs \<or> (\<exists>st. ev \<in> set (trace_of (runBot cfg D rest st)))"
    by (auto simp add: trace_of_def case_prod_beta split: if_splits option.splits)
  with evs Cons.IH show ?case
    by blast
qed

section \<open>Entering a booking attempt\<close>

lemma pre_example:
  "preChecks exampleConfig (examplePass 1000 rs v) initialBot = (None, initialBot\<lparr>checkCount := 1\<rparr>, [])"
  by (simp add: preChecks_def examplePass_def initialBot_def exampleConfig_def cookieResetStep_def
      livenessStep_def verifyStep_def busyStep_def cookieResetIntervalMs_def verifyIntervalMs_def)

lemma days_url:
  "str_includes ''/days/94.json?appointments[expedite]=false'' ''.json''"
  "str_includes ''/days/94.json?appointments[expedite]=false'' ''appointments''"
  "\<not> str_includes ''/days/94.json?appointments[expedite]=false'' ''date=''"
  by simp_all

lemma observed_example:
  "observedSlot exampleConfig D (examplePass 1000 [daysResponse d t] v) initialBot = Some \<lparr>date = d\<rparr>"
  by (simp add: observedSlot_def pre_example observe_def listen_def onResponse_def days_url
      recordSlot_def daysResponse_def Let_def examplePass_def)

text \<open>
  C3. A pass of the monitoring loop that gets to reading the slot calls \<open>performBooking\<close>
  if and only if there is a slot and its date lies in the configured window, both ends
  included: the date is a date, the window has a start and an end, and
  \<open>start \<le> date \<le> end\<close>. In any pass whatever, a call of \<open>performBooking\<close> is made only
  for such a slot, so for a slot outside the window booking is never entered.
\<close>

theorem booking_entered_iff_in_window:
  "(ending_of (preChecks cfg e s) = None \<longrightarrow>
      ((\<exists>a b. EvAttempt a b \<in> set (trace_of (loopPass cfg D e s))) \<longleftrightarrow>
       (\<exists>sl t lo hi. observedSlot cfg D e s = Some sl \<and> D (date sl) = Some t
            \<and> startDate cfg = Some lo \<and> endDate cfg = Some hi \<and> lo \<le> t \<and> t \<le> hi)))
   \<and> ((\<exists>a b. EvAttempt a b \<in> set (trace_of (loopPass cfg D e s))) \<longrightarrow>
       (\<exists>sl t lo hi. observedSlot cfg D e s = Some sl \<and> D (date sl) = Some t
            \<and> startDate cfg = Some lo \<and> endDate cfg = Some hi \<and> lo \<le> t \<and> t \<le> hi))"
proof -
  let ?pre = "preChecks cfg e s"
  let ?book = "bookingStep cfg D e (observe D e (state_of ?pre))"
  let ?entered = "\<exists>a b. EvAttempt a b \<in> set (trace_of (loopPass cfg D e s))"
  let ?inside = "\<exists>sl t lo hi. observedSlot cfg D e s = Some sl \<and> D (date sl) = Some t
            \<and> startDate cfg = Some lo \<and> endDate cfg = Some hi \<and> lo \<le> t \<and> t \<le> hi"
  have pre: "EvAttempt a b \<notin> set (trace_of ?pre)" for a b
    using preChecks_trace [of "EvAttempt a b" cfg e s] by auto
  have inside: "(\<exists>a b. EvAttempt a b \<in> set (trace_of ?book)) \<longleftrightarrow> ?inside"
    unfolding bookingStep_entered observedSlot_def isDateInRange_iff by blast
  have reach: "?entered \<longleftrightarrow> ?inside" if "ending_of ?pre = None"
    using that pre inside by (simp add: loopPass_trace)
  have only: "?inside" if "?entered"
  proof (cases "ending_of ?pre")
    case None
    with reach that show ?thesis
      by blast
  next
    case (Some fin)
    with that pre show ?thesis
      by (simp add: loopPass_trace)
  qed
  from reach only show ?thesis
    by blast
qed

theorem booking_entered_iff_in_window_witness:
  "(\<exists>a b. EvAttempt a b \<in> set (trace_of (loopPass exampleConfig exampleDate
        (examplePass 1000 [daysResponse ''2026-02-10'' 990] VerifyThrew) initialBot)))
   \<and> (\<exists>a b. EvAttempt a b \<in> set (trace_of (loopPass exampleConfig exampleDate
        (examplePass 1000 [daysResponse ''2026-01-01'' 990] VerifyThrew) initialBot)))
   \<and> (\<exists>a b. EvAttempt a b \<in> set (trace_of (loopPass exampleConfig exampleDate
        (examplePass 1000 [daysResponse ''2026-03-31'' 990] VerifyThrew) initialBot)))
   \<and> \<not> (\<exists>a b. EvAttempt a b \<in> set (trace_of (loopPass exampleConfig exampleDate
        (examplePass 1000 [daysResponse ''2026-04-01'' 990] VerifyThrew) initialBot)))"
proof -
  have reach: "ending_of (preChecks exampleConfig (examplePass 1000 rs VerifyThrew) initialBot) = None" for rs
    by (simp add: pre_example)
  have win: "startDate exampleConfig = Some 1767225600000" "endDate exampleConfig = Some 1774915200000"
    by (simp_all add: exampleConfig_def exampleDate_def)
  have a: "\<exists>a b. EvAttempt a b \<in> set (trace_of (loopPass exampleConfig exampleDate
        (examplePass 1000 [daysResponse ''2026-02-10'' 990] VerifyThrew) initialBot))"
    using booking_entered_iff_in_window [of exampleConfig "examplePass 1000 [daysResponse ''2026-02-10'' 990] VerifyThrew"
        initialBot exampleDate] reach win
    by (simp add: observed_example exampleDate_def)
  have b: "\<exists>a b. EvAttempt a b \<in> set (trace_of (loopPass exampleConfig exampleDate
        (examplePass 1000 [daysResponse ''2026-01-01'' 990] VerifyThrew) initialBot))"
    using booking_entered_iff_in_window [of exampleConfig "examplePass 1000 [daysResponse ''2026-01-01'' 990] VerifyThrew"
        initialBot exampleDate] reach win
    by (simp add: observed_example exampleDate_def)
  have c: "\<exists>a b. EvAttempt a b \<in> set (trace_of (loopPass exampleConfig exampleDate
        (examplePass 1000 [daysResponse ''2026-03-31'' 990] VerifyThrew) initialBot))"
    using booking_entered_iff_in_window [of exampleConfig "examplePass 1000 [daysResponse ''2026-03-31'' 990] VerifyThrew"
        initialBot exampleDate] reach win
    by (simp add: observed_example exampleDate_def)
  have d: "\<not> (\<exists>a b. EvAttempt a b \<in> set (trace_of (loopPass exampleConfig exampleDate
        (examplePass 1000 [daysResponse ''2026-04-01'' 990] VerifyThrew) initialBot)))"
    using booking_entered_iff_in_window [of exampleConfig "examplePass 1000 [daysResponse ''2026-04-01'' 990] VerifyThrew"
        initialBot exampleDate] reach win
    by (simp add: observed_example exampleDate_def)
  from a b c d show ?thesis
    by blast
qed

section \<open>The booking attempts of a pass\<close>

lemma attempts_filter:
  "filter isAttempt (map (\<lambda>n. EvAttempt n b) ns) = map (\<lambda>n. EvAttempt n b) ns"
  by (induction ns) simp_all

lemma preChecks_no_attempt: "filter isAttempt (trace_of (preChecks cfg e s)) = []"
proof -
  have "\<not> isAttempt ev" if "ev \<in> set (trace_of (preChecks cfg e s))" for ev
    using preChecks_trace [OF that] by auto
  then show ?thesis
    by (simp add: filter_empty_conv)
qed

lemma bookingStep_all_fail:
  assumes "availableDate s = Some sl"
    and "isDateInRange D (date sl) (startDate cfg) (endDate cfg)"
    and "\<And>n st. 1 \<le> n \<Longrightarrow> n \<le> 3 \<Longrightarrow> fst (performBooking (attempts e n) st) = Some False"
    and "\<And>n. 1 \<le> n \<Longrightarrow> n \<le> 3 \<Longrightarrow> attemptWaits e n = WaitDone"
  shows "ending_of (bookingStep cfg D e s) = None"
    and "\<not> bookingInProgress (state_of (bookingStep cfg D e s))"
    and "trace_of (bookingStep cfg D e s) = [EvAttempt 1 True, EvAttempt 2 True, EvAttempt 3 True]"
proof -
  let ?loop = "bookingLoop 1 (attempts e) (attemptWaits e) (s\<lparr>bookingInProgress := True\<rparr>)"
  from bookingLoop_all_fail [of 1 "attempts e" "attemptWaits e" "s\<lparr>bookingInProgress := True\<rparr>"]
    assms(3,4)
  have l: "ending_of ?loop = None" "trace_of ?loop = map (\<lambda>n. EvAttempt n True) [1..<4]"
    by simp_all
  have up: "[1..<4] = [1, 2, 3 :: nat]"
    by (simp add: upt_conv_Cons)
  obtain fin s' evs where bl: "?loop = (fin, s', evs)"
    by (cases ?loop)
  with l up have "fin = None" "evs = [EvAttempt 1 True, EvAttempt 2 True, EvAttempt 3 True]"
    by simp_all
  with bl assms(1,2)
  show "ending_of (bookingStep cfg D e s) = None"
    and "\<not> bookingInProgress (state_of (bookingStep cfg D e s))"
    and "trace_of (bookingStep cfg D e s) = [EvAttempt 1 True, EvAttempt 2 True, EvAttempt 3 True]"
    by (simp_all add: bookingStep_def)
qed

lemma bookingStep_wait_raises:
  assumes "availableDate s = Some sl"
    and "isDateInRange D (date sl) (startDate cfg) (endDate cfg)"
    and "\<And>n st. 1 \<le> n \<Longrightarrow> n \<le> 3 \<Longrightarrow> fst (performBooking (attempts e n) st) = Some False"
    and "\<And>n. 1 \<le> n \<Longrightarrow> n < 3 \<Longrightarrow> attemptWaits e n = WaitDone"
    and "attemptWaits e 3 = WaitRaised msg"
  shows "ending_of (bookingStep cfg D e s) = Some (loopCatch msg)"
    and "bookingInProgress (state_of (bookingStep cfg D e s))"
    and "trace_of (bookingStep cfg D e s) = [EvAttempt 1 True, EvAttempt 2 True, EvAttempt 3 True]"
proof -
  let ?loop = "bookingLoop 1 (attempts e) (attemptWaits e) (s\<lparr>bookingInProgress := True\<rparr>)"
  from bookingLoop_wait_raises [of 1 "attempts e" "attemptWaits e" msg "s\<lparr>bookingInProgress := True\<rparr>"]
    assms(3,4,5)
  have l: "ending_of ?loop = Some (loopCatch msg)"
    "trace_of ?loop = map (\<lambda>n. EvAttempt n True) [1..<4]"
    by simp_all
  have up: "[1..<4] = [1, 2, 3 :: nat]"
    by (simp add: upt_conv_Cons)
  from bookingLoop_flag [of 1 "attempts e" "attemptWaits e" "s\<lparr>bookingInProgress := True\<rparr>"]
  have fl: "bookingInProgress (state_of ?loop)"
    by simp
  obtain fin s' evs where bl: "?loop = (fin, s', evs)"
    by (cases ?loop)
  with l up fl have "fin = Some (loopCatch msg)" "bookingInProgress s'"
    "evs = [EvAttempt 1 True, EvAttempt 2 True, EvAttempt 3 True]"
    by simp_all
  with bl assms(1,2)
  show "ending_of (bookingStep cfg D e s) = Some (loopCatch msg)"
    and "bookingInProgress (state_of (bookingStep cfg D e s))"
    and "trace_of (bookingStep cfg D e s) = [EvAttempt 1 True, EvAttempt 2 True, EvAttempt 3 True]"
    by (simp_all add: bookingStep_def)
qed

lemma monitor_step:
  "ending_of (loopPass cfg D e s) = Continue \<Longrightarrow>
     monitor cfg D (e # es) s =
       (case monitor cfg D es (state_of (loopPass cfg D e s)) of
          (fin, s', evs) \<Rightarrow> (fin, s', trace_of (loopPass cfg D e s) @ evs))"
  by (cases "loopPass cfg D e s") simp

lemma formStays_fails: "fst (performBooking formStays st) = Some False"
  by (simp add: performBooking_def formStays_def stillOnForm_def truthy_def)

text \<open>
  C7. In a pass that starts with the flag \<open>bookingInProgress\<close> set,
  \<open>verifyDataFreshness\<close> is not called. Over any run of sessions and passes, every call of
  \<open>verifyDataFreshness\<close> finds the flag clear and every call of \<open>performBooking\<close> finds
  it set. After a sequence of attempts the flag is clear exactly when the sequence ran to
  its end without booking; when it ends the pass (booked, an attempt still waiting, or the
  wait after a failed attempt raising) the flag is still set.
\<close>

theorem no_verification_during_booking:
  "(bookingInProgress s \<longrightarrow> (\<forall>b. EvVerify b \<notin> set (trace_of (loopPass cfg D e s))))
   \<and> (\<forall>b. EvVerify b \<in> set (trace_of (runBot cfg D sessions s)) \<longrightarrow> \<not> b)
   \<and> (\<forall>a b. EvAttempt a b \<in> set (trace_of (runBot cfg D sessions s)) \<longrightarrow> b)
   \<and> (trace_of (bookingStep cfg D e s) \<noteq> [] \<longrightarrow>
        (bookingInProgress (state_of (bookingStep cfg D e s)) \<longleftrightarrow>
           ending_of (bookingStep cfg D e s) \<noteq> None))"
proof -
  have first: "EvVerify b \<notin> set (trace_of (loopPass cfg D e s))" if "bookingInProgress s" for b
  proof
    assume "EvVerify b \<in> set (trace_of (loopPass cfg D e s))"
    with preChecks_quiet [OF that, of cfg e]
    have "EvVerify b \<in> set (trace_of (bookingStep cfg D e (observe D e (state_of (preChecks cfg e s)))))"
      by (simp add: loopPass_trace split: option.splits)
    with bookingStep_events [of cfg D e "observe D e (state_of (preChecks cfg e s))"]
    show False
      by auto
  qed
  have second: "\<not> b" if "EvVerify b \<in> set (trace_of (runBot cfg D sessions s))" for b
    using runBot_events [OF that] by auto
  have third: "b" if "EvAttempt a b \<in> set (trace_of (runBot cfg D sessions s))" for a b
    using runBot_events [OF that] by auto
  from first second third bookingStep_after [of cfg D e s] show ?thesis
    by blast
qed

lemma examplePass_fields [simp]:
  "now (examplePass t rs v) = t"
  "cookieResetOk (examplePass t rs v) = True"
  "pageAlive (examplePass t rs v) = True"
  "verification (examplePass t rs v) = \<lparr>outcome = v, finishedAt = t + 9000\<rparr>"
  "pageBusy (examplePass t rs v) = False"
  "pageSignIn (examplePass t rs v) = False"
  "triggerOk (examplePass t rs v) = True"
  "arrivals (examplePass t rs v) = rs"
  "attempts (examplePass t rs v) = (\<lambda>n. formStays)"
  "attemptWaits (examplePass t rs v) = (\<lambda>n. WaitDone)"
  by (simp_all add: examplePass_def)

lemma initialBot_fields [simp]:
  "\<not> bookingInProgress initialBot" "lastVerifyTime initialBot = 0" "lastCookieReset initialBot = 0"
  "checkCount initialBot = 0" "availableDate initialBot = None"
  by (simp_all add: initialBot_def)

lemma monitor_trace_step:
  "ending_of (loopPass cfg D e s) = Continue \<Longrightarrow>
     trace_of (monitor cfg D (e # es) s) =
       trace_of (loopPass cfg D e s) @ trace_of (monitor cfg D es (state_of (loopPass cfg D e s)))"
  by (cases "loopPass cfg D e s") (simp add: trace_of_def split: prod.splits)

lemma pre_verifies:
  "preChecks exampleConfig (examplePass 400000 rs VerifyThrew) initialBot
     = (None, initialBot\<lparr>checkCount := 1, lastVerifyTime := 409000\<rparr>, [EvVerify False])"
  by (simp add: preChecks_def cookieResetStep_def livenessStep_def verifyStep_def busyStep_def
      cookieResetIntervalMs_def verifyIntervalMs_def verifyDataFreshness_def verifyCatch_def
      hasVerifyAccount_def exampleConfig_def initialBot_def)

lemma observed_after_verify:
  "availableDate (observe D (examplePass 400000 [daysResponse d t] VerifyThrew)
       (initialBot\<lparr>checkCount := 1, lastVerifyTime := 409000\<rparr>)) = Some \<lparr>date = d\<rparr>"
  by (simp add: observe_def listen_def onResponse_def days_url recordSlot_def daysResponse_def Let_def)

lemma inside_example:
  "isDateInRange exampleDate (date \<lparr>date = ''2026-02-10''\<rparr>) (startDate exampleConfig) (endDate exampleConfig)"
  by (simp add: isDateInRange_def exampleConfig_def exampleDate_def date_ge_def date_le_def)

lemma pass_verifies_and_books:
  shows "trace_of (loopPass exampleConfig exampleDate
       (examplePass 400000 [daysResponse ''2026-02-10'' 399990] VerifyThrew) initialBot)
     = [EvVerify False, EvAttempt 1 True, EvAttempt 2 True, EvAttempt 3 True]"
  and "ending_of (loopPass exampleConfig exampleDate
       (examplePass 400000 [daysResponse ''2026-02-10'' 399990] VerifyThrew) initialBot) = Continue"
proof -
  let ?e = "examplePass 400000 [daysResponse ''2026-02-10'' 399990] VerifyThrew"
  define s1 where "s1 = initialBot\<lparr>checkCount := 1, lastVerifyTime := 409000\<rparr>"
  have pre: "preChecks exampleConfig ?e initialBot = (None, s1, [EvVerify False])"
    unfolding s1_def by (rule pre_verifies)
  have obs: "availableDate (observe exampleDate ?e s1) = Some \<lparr>date = ''2026-02-10''\<rparr>"
    unfolding s1_def by (rule observed_after_verify)
  have fail: "\<And>n st. 1 \<le> n \<Longrightarrow> n \<le> 3 \<Longrightarrow> fst (performBooking (attempts ?e n) st) = Some False"
    by (simp add: formStays_fails)
  have wd: "\<And>n. 1 \<le> n \<Longrightarrow> n \<le> 3 \<Longrightarrow> attemptWaits ?e n = WaitDone"
    by simp
  note b = bookingStep_all_fail [OF obs inside_example fail wd]
  show "trace_of (loopPass exampleConfig exampleDate ?e initialBot)
     = [EvVerify False, EvAttempt 1 True, EvAttempt 2 True, EvAttempt 3 True]"
    by (simp add: loopPass_trace pre b)
  show "ending_of (loopPass exampleConfig exampleDate ?e initialBot) = Continue"
    by (simp add: loopPass_ending pre b)
qed

lemma session_start [simp]:
  "initialBot\<lparr>checkCount := 0, lastCookieReset := 0, lastVerifyTime := 0, lastTelegramUpdate := 0\<rparr>
     = initialBot"
  by (simp add: initialBot_def)

lemma exampleSession_fields [simp]:
  "proxyOk (exampleSession ps)" "launchOk (exampleSession ps)" "loginOk (exampleSession ps)"
  "navigationOk (exampleSession ps)" "startedAt (exampleSession ps) = 0"
  "passes (exampleSession ps) = ps"
  by (simp_all add: exampleSession_def)

lemma run_verifies_and_books:
  "trace_of (runBot exampleConfig exampleDate
       [exampleSession [examplePass 400000 [daysResponse ''2026-02-10'' 399990] VerifyThrew]] initialBot)
     = [EvLogin, EvVerify False, EvAttempt 1 True, EvAttempt 2 True, EvAttempt 3 True]"
proof -
  let ?e = "examplePass 400000 [daysResponse ''2026-02-10'' 399990] VerifyThrew"
  note p = pass_verifies_and_books
  have m: "trace_of (monitor exampleConfig exampleDate [?e] initialBot)
      = [EvVerify False, EvAttempt 1 True, EvAttempt 2 True, EvAttempt 3 True]"
    by (subst monitor_trace_step, rule p(2)) (simp add: p(1))
  have en: "ending_of (monitor exampleConfig exampleDate [?e] initialBot) = None"
    by (subst monitor_step, rule p(2)) simp
  obtain fin s' evs where mm: "monitor exampleConfig exampleDate [?e] initialBot = (fin, s', evs)"
    by (cases "monitor exampleConfig exampleDate [?e] initialBot")
  with m en have "fin = None" and "evs = [EvVerify False, EvAttempt 1 True, EvAttempt 2 True, EvAttempt 3 True]"
    by simp_all
  with mm show ?thesis
    by (simp del: monitor.simps)
qed

theorem no_verification_during_booking_witness:
  "bookingInProgress (initialBot\<lparr>bookingInProgress := True\<rparr>)
   \<and> 400000 - lastVerifyTime (initialBot\<lparr>bookingInProgress := True\<rparr>) > verifyIntervalMs exampleConfig
   \<and> (\<forall>b. EvVerify b \<notin> set (trace_of (loopPass exampleConfig exampleDate
          (examplePass 400000 [] VerifyThrew) (initialBot\<lparr>bookingInProgress := True\<rparr>))))
   \<and> EvVerify False \<in> set (trace_of (runBot exampleConfig exampleDate
          [exampleSession [examplePass 400000 [daysResponse ''2026-02-10'' 399990] VerifyThrew]] initialBot))
   \<and> EvVerify True \<notin> set (trace_of (runBot exampleConfig exampleDate
          [exampleSession [examplePass 400000 [daysResponse ''2026-02-10'' 399990] VerifyThrew]] initialBot))
   \<and> EvAttempt 1 True \<in> set (trace_of (runBot exampleConfig exampleDate
          [exampleSession [examplePass 400000 [daysResponse ''2026-02-10'' 399990] VerifyThrew]] initialBot))
   \<and> EvAttempt 1 False \<notin> set (trace_of (runBot exampleConfig exampleDate
          [exampleSession [examplePass 400000 [daysResponse ''2026-02-10'' 399990] VerifyThrew]] initialBot))
   \<and> trace_of (bookingStep exampleConfig exampleDate (examplePass 400000 [] VerifyThrew)
          (initialBot\<lparr>availableDate := Some \<lparr>date = ''2026-02-10''\<rparr>\<rparr>)) \<noteq> []
   \<and> ending_of (bookingStep exampleConfig exampleDate (examplePass 400000 [] VerifyThrew)
          (initialBot\<lparr>availableDate := Some \<lparr>date = ''2026-02-10''\<rparr>\<rparr>)) = None
   \<and> \<not> bookingInProgress (state_of (bookingStep exampleConfig exampleDate
          (examplePass 400000 [] VerifyThrew)
          (initialBot\<lparr>availableDate := Some \<lparr>date = ''2026-02-10''\<rparr>\<rparr>)))"
proof -
  let ?stuck = "initialBot\<lparr>bookingInProgress := True\<rparr>"
  let ?run = "runBot exampleConfig exampleDate
          [exampleSession [examplePass 400000 [daysResponse ''2026-02-10'' 399990] VerifyThrew]] initialBot"
  let ?e = "examplePass 400000 [] VerifyThrew"
  let ?seen = "initialBot\<lparr>availableDate := Some \<lparr>date = ''2026-02-10''\<rparr>\<rparr>"
  have f: "bookingInProgress ?stuck"
    by simp
  have d: "400000 - lastVerifyTime ?stuck > verifyIntervalMs exampleConfig"
    by (simp add: initialBot_def verifyIntervalMs_def exampleConfig_def)
  from no_verification_during_booking [where s = ?stuck and cfg = exampleConfig and D = exampleDate
      and e = ?e, THEN conjunct1] f
  have quiet: "\<forall>b. EvVerify b \<notin> set (trace_of (loopPass exampleConfig exampleDate ?e ?stuck))"
    by blast
  have v: "EvVerify False \<in> set (trace_of ?run)" and a: "EvAttempt 1 True \<in> set (trace_of ?run)"
    unfolding run_verifies_and_books by simp_all
  from no_verification_during_booking [where cfg = exampleConfig and D = exampleDate
      and sessions = "[exampleSession [examplePass 400000 [daysResponse ''2026-02-10'' 399990] VerifyThrew]]"
      and s = initialBot, THEN conjunct2]
  have flags: "EvVerify True \<notin> set (trace_of ?run)" "EvAttempt 1 False \<notin> set (trace_of ?run)"
    by blast+
  have av: "availableDate ?seen = Some \<lparr>date = ''2026-02-10''\<rparr>"
    by simp
  have fail: "\<And>n st. 1 \<le> n \<Longrightarrow> n \<le> 3 \<Longrightarrow> fst (performBooking (attempts ?e n) st) = Some False"
    by (simp add: formStays_fails)
  have wd: "\<And>n. 1 \<le> n \<Longrightarrow> n \<le> 3 \<Longrightarrow> attemptWaits ?e n = WaitDone"
    by simp
  note b = bookingStep_all_fail [where e = ?e, OF av inside_example fail wd]
  have tr: "trace_of (bookingStep exampleConfig exampleDate ?e ?seen) \<noteq> []"
    by (simp add: b(3))
  have en: "ending_of (bookingStep exampleConfig exampleDate ?e ?seen) = None"
    by (simp add: b(1))
  from no_verification_during_booking [where cfg = exampleConfig and D = exampleDate and e = ?e
      and s = ?seen, THEN conjunct2, THEN conjunct2, THEN conjunct2] tr en
  have cleared: "\<not> bookingInProgress (state_of (bookingStep exampleConfig exampleDate ?e ?seen))"
    by blast
  from f d quiet v a flags tr en cleared show ?thesis
    by (intro conjI)
qed

lemma performBooking_state:
  "(snd (performBooking e s))\<lparr>availableTime := None\<rparr> = s\<lparr>availableTime := None\<rparr>"
  by (simp add: performBooking_def Let_def split: option.splits del: awaitTime.simps)

lemma bookingLoop_state:
  "(state_of (bookingLoop a envs waits s))\<lparr>availableTime := None\<rparr> = s\<lparr>availableTime := None\<rparr>"
proof (induction a envs waits s rule: bookingLoop.induct)
  case (1 attempt envs waits s)
  show ?case
  proof (cases "attempt \<le> 3")
    case False
    then show ?thesis
      by (simp add: bookingLoop.simps [of attempt])
  next
    case True
    obtain r s' where pb: "performBooking (envs attempt) s = (r, s')"
      by (cases "performBooking (envs attempt) s")
    with performBooking_state [of "envs attempt" s]
    have s': "s'\<lparr>availableTime := None\<rparr> = s\<lparr>availableTime := None\<rparr>"
      by simp
    show ?thesis
    proof (cases r)
      case None
      with True pb s' show ?thesis
        by (simp add: bookingLoop.simps [of attempt])
    next
      case (Some booked)
      show ?thesis
      proof (cases booked)
        case True
        with \<open>attempt \<le> 3\<close> pb s' Some show ?thesis
          by (simp add: bookingLoop.simps [of attempt])
      next
        case False
        show ?thesis
        proof (cases "waits attempt")
          case (WaitRaised msg)
          with \<open>attempt \<le> 3\<close> pb s' Some False show ?thesis
            by (simp add: bookingLoop.simps [of attempt])
        next
          case WaitDone
          let ?n = "state_of (bookingLoop (attempt + 1) envs waits s')"
          from "1.IH" [OF \<open>attempt \<le> 3\<close> pb [symmetric] Some False WaitDone]
          have "?n\<lparr>availableTime := None\<rparr> = s'\<lparr>availableTime := None\<rparr>" .
          with s' have n: "?n\<lparr>availableTime := None\<rparr> = s\<lparr>availableTime := None\<rparr>"
            by simp
          from \<open>attempt \<le> 3\<close> pb Some False WaitDone
          have "state_of (bookingLoop attempt envs waits s) = ?n"
            by (simp add: bookingLoop.simps [of attempt] state_of_def split: prod.splits)
          with n show ?thesis
            by simp
        qed
      qed
    qed
  qed
qed

lemma bookingStep_state:
  "(state_of (bookingStep cfg D e s))\<lparr>availableTime := None, bookingInProgress := False\<rparr>
     = s\<lparr>availableTime := None, bookingInProgress := False\<rparr>"
proof -
  let ?s = "s\<lparr>bookingInProgress := True\<rparr>"
  let ?loop = "bookingLoop 1 (attempts e) (attemptWaits e) ?s"
  obtain fin s' evs where bl: "?loop = (fin, s', evs)"
    by (cases ?loop)
  with bookingLoop_state [of 1 "attempts e" "attemptWaits e" ?s]
  have "s'\<lparr>availableTime := None\<rparr> = ?s\<lparr>availableTime := None\<rparr>"
    by simp
  then have "s'\<lparr>availableTime := None\<rparr>\<lparr>bookingInProgress := False\<rparr>
      = ?s\<lparr>availableTime := None\<rparr>\<lparr>bookingInProgress := False\<rparr>"
    by simp
  then have "s'\<lparr>availableTime := None, bookingInProgress := False\<rparr>
      = s\<lparr>availableTime := None, bookingInProgress := False\<rparr>"
    by simp
  with bl show ?thesis
    by (cases fin) (simp_all add: bookingStep_def split: option.splits)
qed

lemma lostPagePass_fields [simp]:
  "now (lostPagePass t rs msg) = t"
  "cookieResetOk (lostPagePass t rs msg) = True"
  "pageAlive (lostPagePass t rs msg) = True"
  "pageBusy (lostPagePass t rs msg) = False"
  "pageSignIn (lostPagePass t rs msg) = False"
  "triggerOk (lostPagePass t rs msg) = True"
  "arrivals (lostPagePass t rs msg) = rs"
  "attempts (lostPagePass t rs msg) = (\<lambda>n. formStays)"
  "attemptWaits (lostPagePass t rs msg) = (\<lambda>n. if n = 3 then WaitRaised msg else WaitDone)"
  by (simp_all add: lostPagePass_def)

lemma pre_lost:
  "preChecks exampleConfig (lostPagePass 1000 rs msg) initialBot = (None, initialBot\<lparr>checkCount := 1\<rparr>, [])"
  by (simp add: preChecks_def initialBot_def exampleConfig_def cookieResetStep_def
      livenessStep_def verifyStep_def busyStep_def cookieResetIntervalMs_def verifyIntervalMs_def)

lemma observed_lost:
  "availableDate (observe D (lostPagePass 1000 [daysResponse d t] msg) (initialBot\<lparr>checkCount := n\<rparr>))
     = Some \<lparr>date = d\<rparr>"
  "lastVerifyTime (observe D (lostPagePass 1000 [daysResponse d t] msg) (initialBot\<lparr>checkCount := n\<rparr>)) = 0"
  by (simp_all add: observe_def listen_def onResponse_def days_url recordSlot_def daysResponse_def Let_def)

lemma closedMessage:
  "loopCatch ''page.waitForTimeout: Target page, context or browser has been closed'' = Restart"
  by (simp add: loopCatch_def)

lemma loopPass_quiet:
  assumes "bookingInProgress s"
  shows "EvVerify b \<notin> set (trace_of (loopPass cfg D e s))"
    and "EvLogin \<notin> set (trace_of (loopPass cfg D e s))"
proof -
  from bookingStep_events [of cfg D e "observe D e (state_of (preChecks cfg e s))"]
  obtain k where "trace_of (bookingStep cfg D e (observe D e (state_of (preChecks cfg e s))))
      = map (\<lambda>n. EvAttempt n True) [1..<1 + k]"
    by blast
  with preChecks_quiet [OF assms, of cfg e]
  show "EvVerify b \<notin> set (trace_of (loopPass cfg D e s))"
    and "EvLogin \<notin> set (trace_of (loopPass cfg D e s))"
    by (auto simp add: loopPass_trace split: option.splits)
qed

lemma pass_lost:
  shows "trace_of (loopPass exampleConfig exampleDate
       (lostPagePass 1000 [daysResponse ''2026-02-10'' 1010] msg) initialBot)
     = [EvAttempt 1 True, EvAttempt 2 True, EvAttempt 3 True]"
  and "ending_of (loopPass exampleConfig exampleDate
       (lostPagePass 1000 [daysResponse ''2026-02-10'' 1010] msg) initialBot) = loopCatch msg"
  and "bookingInProgress (state_of (loopPass exampleConfig exampleDate
       (lostPagePass 1000 [daysResponse ''2026-02-10'' 1010] msg) initialBot))"
  and "lastVerifyTime (state_of (loopPass exampleConfig exampleDate
       (lostPagePass 1000 [daysResponse ''2026-02-10'' 1010] msg) initialBot)) = 0"
  and "availableDate (state_of (loopPass exampleConfig exampleDate
       (lostPagePass 1000 [daysResponse ''2026-02-10'' 1010] msg) initialBot)) = Some \<lparr>date = ''2026-02-10''\<rparr>"
proof -
  let ?e = "lostPagePass 1000 [daysResponse ''2026-02-10'' 1010] msg"
  let ?pre = "preChecks exampleConfig ?e initialBot"
  let ?obs = "observe exampleDate ?e (state_of ?pre)"
  let ?book = "bookingStep exampleConfig exampleDate ?e ?obs"
  have reach: "ending_of ?pre = None" and quiet: "trace_of ?pre = []"
    by (simp_all add: pre_lost)
  have obs: "availableDate ?obs = Some \<lparr>date = ''2026-02-10''\<rparr>" and lv: "lastVerifyTime ?obs = 0"
    by (simp_all add: pre_lost observed_lost)
  have fail: "\<And>n st. 1 \<le> n \<Longrightarrow> n \<le> 3 \<Longrightarrow> fst (performBooking (attempts ?e n) st) = Some False"
    by (simp add: formStays_fails)
  have wd: "\<And>n. 1 \<le> n \<Longrightarrow> n < 3 \<Longrightarrow> attemptWaits ?e n = WaitDone"
    by simp
  have w3: "attemptWaits ?e 3 = WaitRaised msg"
    by simp
  note b = bookingStep_wait_raises [where e = ?e and cfg = exampleConfig, OF obs inside_example fail wd w3]
  have st: "state_of (loopPass exampleConfig exampleDate ?e initialBot) = state_of ?book"
    by (simp add: loopPass_state reach b(1))
  note eq = bookingStep_state [of exampleConfig exampleDate ?e ?obs]
  from arg_cong [OF eq, of lastVerifyTime] arg_cong [OF eq, of availableDate]
  have fr: "lastVerifyTime (state_of ?book) = lastVerifyTime ?obs"
    "availableDate (state_of ?book) = availableDate ?obs"
    by simp_all
  show "trace_of (loopPass exampleConfig exampleDate ?e initialBot)
     = [EvAttempt 1 True, EvAttempt 2 True, EvAttempt 3 True]"
    by (simp add: loopPass_trace reach quiet b(3))
  show "ending_of (loopPass exampleConfig exampleDate ?e initialBot) = loopCatch msg"
    by (simp add: loopPass_ending reach b(1))
  show "bookingInProgress (state_of (loopPass exampleConfig exampleDate ?e initialBot))"
    unfolding st by (rule b(2))
  show "lastVerifyTime (state_of (loopPass exampleConfig exampleDate ?e initialBot)) = 0"
    unfolding st fr by (rule lv)
  show "availableDate (state_of (loopPass exampleConfig exampleDate ?e initialBot)) = Some \<lparr>date = ''2026-02-10''\<rparr>"
    unfolding st fr by (rule obs)
qed

lemma preChecks_booking:
  "bookingInProgress s \<Longrightarrow> checkCount s = 0 \<Longrightarrow>
     preChecks cfg e s = (None, s\<lparr>checkCount := 1\<rparr>, [])"
  by (simp add: preChecks_def cookieResetStep_def livenessStep_def verifyStep_def busyStep_def)

lemma pass_with_flag:
  assumes "bookingInProgress s" and "availableDate s = Some \<lparr>date = ''2026-02-10''\<rparr>"
    and "checkCount s = 0"
  shows "trace_of (loopPass exampleConfig exampleDate (examplePass t [] v) s)
           = [EvAttempt 1 True, EvAttempt 2 True, EvAttempt 3 True]"
    and "ending_of (loopPass exampleConfig exampleDate (examplePass t [] v) s) = Continue"
    and "\<not> bookingInProgress (state_of (loopPass exampleConfig exampleDate (examplePass t [] v) s))"
proof -
  let ?e = "examplePass t [] v"
  let ?pre = "preChecks exampleConfig ?e s"
  let ?obs = "observe exampleDate ?e (state_of ?pre)"
  let ?book = "bookingStep exampleConfig exampleDate ?e ?obs"
  have reach: "ending_of ?pre = None" and quiet: "trace_of ?pre = []"
    by (simp_all add: preChecks_booking [OF assms(1,3)])
  have obs: "availableDate ?obs = Some \<lparr>date = ''2026-02-10''\<rparr>"
    by (simp add: preChecks_booking [OF assms(1,3)] observe_def listen_def assms(2))
  have fail: "\<And>n st. 1 \<le> n \<Longrightarrow> n \<le> 3 \<Longrightarrow> fst (performBooking (attempts ?e n) st) = Some False"
    by (simp add: formStays_fails)
  have wd: "\<And>n. 1 \<le> n \<Longrightarrow> n \<le> 3 \<Longrightarrow> attemptWaits ?e n = WaitDone"
    by simp
  note b = bookingStep_all_fail [where e = ?e and cfg = exampleConfig, OF obs inside_example fail wd]
  show "trace_of (loopPass exampleConfig exampleDate ?e s)
           = [EvAttempt 1 True, EvAttempt 2 True, EvAttempt 3 True]"
    by (simp add: loopPass_trace reach quiet b(3))
  show "ending_of (loopPass exampleConfig exampleDate ?e s) = Continue"
    by (simp add: loopPass_ending reach b(1))
  show "\<not> bookingInProgress (state_of (loopPass exampleConfig exampleDate ?e s))"
    by (simp add: loopPass_state reach b(1) b(2))
qed

lemma runBot_exampleSession:
  "runBot exampleConfig D (exampleSession ps # rest) s =
     (case monitor exampleConfig D ps
             (s\<lparr>checkCount := 0, lastCookieReset := 0, lastVerifyTime := 0, lastTelegramUpdate := 0\<rparr>) of
        (Some fin, s', evs) \<Rightarrow>
          (if fin = Restart
           then (case runBot exampleConfig D rest s' of
                   (fin', s'', evs') \<Rightarrow> (fin', s'', EvLogin # evs @ evs'))
           else (Some fin, s', EvLogin # evs))
      | (None, s', evs) \<Rightarrow> (None, s', EvLogin # evs))"
proof -
  have "\<not> proxyEnabled exampleConfig"
    by (simp add: exampleConfig_def)
  then show ?thesis
    by simp
qed

lemma run_lost:
  "trace_of (runBot exampleConfig exampleDate
       [exampleSession [lostPagePass 1000 [daysResponse ''2026-02-10'' 1010]
            ''page.waitForTimeout: Target page, context or browser has been closed''],
        exampleSession [examplePass 400000 [] VerifyThrew]] initialBot)
     = [EvLogin, EvAttempt 1 True, EvAttempt 2 True, EvAttempt 3 True,
        EvLogin, EvAttempt 1 True, EvAttempt 2 True, EvAttempt 3 True]"
proof -
  let ?msg = "''page.waitForTimeout: Target page, context or browser has been closed''"
  let ?lost = "lostPagePass 1000 [daysResponse ''2026-02-10'' 1010] ?msg"
  let ?next = "examplePass 400000 [] VerifyThrew"
  let ?p1 = "loopPass exampleConfig exampleDate ?lost initialBot"
  define s' where "s' = state_of ?p1"
  define s0 where "s0 = s'\<lparr>checkCount := 0, lastCookieReset := 0, lastVerifyTime := 0,
      lastTelegramUpdate := 0\<rparr>"
  let ?p2 = "loopPass exampleConfig exampleDate ?next s0"
  have e1: "ending_of ?p1 = Restart"
    by (simp add: pass_lost(2) closedMessage)
  have m1: "monitor exampleConfig exampleDate [?lost] initialBot
      = (Some Restart, s', [EvAttempt 1 True, EvAttempt 2 True, EvAttempt 3 True])"
    using e1 pass_lost(1) [of ?msg] unfolding s'_def
    by (cases ?p1) simp
  have fl: "bookingInProgress s0" "availableDate s0 = Some \<lparr>date = ''2026-02-10''\<rparr>"
    "checkCount s0 = 0"
    unfolding s0_def s'_def by (simp_all add: pass_lost(3,5))
  note p2 = pass_with_flag [OF fl, of 400000 VerifyThrew]
  have m2: "monitor exampleConfig exampleDate [?next] s0
      = (None, state_of ?p2, [EvAttempt 1 True, EvAttempt 2 True, EvAttempt 3 True])"
    by (subst monitor_step, rule p2(2)) (simp add: p2(1))
  have r2: "runBot exampleConfig exampleDate [exampleSession [?next]] s'
      = (None, state_of ?p2, [EvLogin, EvAttempt 1 True, EvAttempt 2 True, EvAttempt 3 True])"
    unfolding runBot_exampleSession s0_def [symmetric] m2 by simp
  show ?thesis
    unfolding runBot_exampleSession [of exampleDate "[?lost]"] session_start m1
    by (simp add: r2 del: runBot.simps)
qed

lemma pass_completes:
  shows "ending_of (loopPass exampleConfig exampleDate
       (examplePass 1000 [daysResponse ''2026-02-10'' 1010] VerifyThrew) initialBot) = Continue"
  and "\<not> bookingInProgress (state_of (loopPass exampleConfig exampleDate
       (examplePass 1000 [daysResponse ''2026-02-10'' 1010] VerifyThrew) initialBot))"
  and "trace_of (loopPass exampleConfig exampleDate
       (examplePass 1000 [daysResponse ''2026-02-10'' 1010] VerifyThrew) initialBot)
     = [EvAttempt 1 True, EvAttempt 2 True, EvAttempt 3 True]"
proof -
  let ?e = "examplePass 1000 [daysResponse ''2026-02-10'' 1010] VerifyThrew"
  let ?pre = "preChecks exampleConfig ?e initialBot"
  let ?obs = "observe exampleDate ?e (state_of ?pre)"
  have reach: "ending_of ?pre = None" and quiet: "trace_of ?pre = []"
    by (simp_all add: pre_example)
  have obs: "availableDate ?obs = Some \<lparr>date = ''2026-02-10''\<rparr>"
    using observed_example [of exampleDate "''2026-02-10''" 1010 VerifyThrew]
    by (simp add: observedSlot_def)
  have fail: "\<And>n st. 1 \<le> n \<Longrightarrow> n \<le> 3 \<Longrightarrow> fst (performBooking (attempts ?e n) st) = Some False"
    by (simp add: formStays_fails)
  have wd: "\<And>n. 1 \<le> n \<Longrightarrow> n \<le> 3 \<Longrightarrow> attemptWaits ?e n = WaitDone"
    by simp
  note b = bookingStep_all_fail [where e = ?e and cfg = exampleConfig, OF obs inside_example fail wd]
  show "ending_of (loopPass exampleConfig exampleDate ?e initialBot) = Continue"
    by (simp add: loopPass_ending reach b(1))
  show "\<not> bookingInProgress (state_of (loopPass exampleConfig exampleDate ?e initialBot))"
    by (simp add: loopPass_state reach b(1) b(2))
  show "trace_of (loopPass exampleConfig exampleDate ?e initialBot)
     = [EvAttempt 1 True, EvAttempt 2 True, EvAttempt 3 True]"
    by (simp add: loopPass_trace reach quiet b(3))
qed

lemma pass_verifies:
  "EvVerify False \<in> set (trace_of (loopPass exampleConfig exampleDate
       (examplePass 400000 [] VerifyThrew) initialBot))"
  by (simp add: loopPass_trace pre_verifies)

text \<open>
  C4. A pass of the monitoring loop makes at most three booking attempts. When a slot inside
  the window is read, each of the three attempts returns \<open>false\<close> and each wait after an
  attempt completes, the attempts are the first, second and third, the flag
  \<open>bookingInProgress\<close> is cleared after them and the pass goes on to the next pass of the
  same session. The wait of 50 ms after a failed attempt, however, is inside the loop over
  the attempts and outside the handler around the attempt. When it raises after the third
  failed attempt, the assignment that clears the flag is not reached: the handler of the
  loop body ends the pass with the flag still set, and it does so by calling \<open>runBot\<close>
  again when the message says that the page or the browser was closed. Nothing resets the
  flag when a session starts, so in the session that follows the three failed attempts the
  verification that has come due is not called, as it is in the same pass entered with the
  flag clear; the flag is cleared only when a later sequence of attempts runs to its end.
\<close>

theorem failed_wait_leaves_flag_set:
  "length (filter isAttempt (trace_of (loopPass cfg D e s))) \<le> 3
   \<and> trace_of (loopPass exampleConfig exampleDate
          (examplePass 1000 [daysResponse ''2026-02-10'' 1010] VerifyThrew) initialBot)
        = [EvAttempt 1 True, EvAttempt 2 True, EvAttempt 3 True]
   \<and> ending_of (loopPass exampleConfig exampleDate
          (examplePass 1000 [daysResponse ''2026-02-10'' 1010] VerifyThrew) initialBot) = Continue
   \<and> \<not> bookingInProgress (state_of (loopPass exampleConfig exampleDate
          (examplePass 1000 [daysResponse ''2026-02-10'' 1010] VerifyThrew) initialBot))
   \<and> trace_of (loopPass exampleConfig exampleDate
          (lostPagePass 1000 [daysResponse ''2026-02-10'' 1010] msg) initialBot)
        = [EvAttempt 1 True, EvAttempt 2 True, EvAttempt 3 True]
   \<and> ending_of (loopPass exampleConfig exampleDate
          (lostPagePass 1000 [daysResponse ''2026-02-10'' 1010] msg) initialBot) = loopCatch msg
   \<and> bookingInProgress (state_of (loopPass exampleConfig exampleDate
          (lostPagePass 1000 [daysResponse ''2026-02-10'' 1010] msg) initialBot))
   \<and> loopCatch ''page.waitForTimeout: Target page, context or browser has been closed'' = Restart
   \<and> trace_of (runBot exampleConfig exampleDate
          [exampleSession [lostPagePass 1000 [daysResponse ''2026-02-10'' 1010]
               ''page.waitForTimeout: Target page, context or browser has been closed''],
           exampleSession [examplePass 400000 [] VerifyThrew]] initialBot)
        = [EvLogin, EvAttempt 1 True, EvAttempt 2 True, EvAttempt 3 True,
           EvLogin, EvAttempt 1 True, EvAttempt 2 True, EvAttempt 3 True]
   \<and> now (examplePass 400000 [] VerifyThrew)
        - startedAt (exampleSession [examplePass 400000 [] VerifyThrew]) > verifyIntervalMs exampleConfig
   \<and> EvVerify False \<in> set (trace_of (loopPass exampleConfig exampleDate
          (examplePass 400000 [] VerifyThrew) initialBot))"
proof -
  let ?pre = "preChecks cfg e s"
  let ?book = "bookingStep cfg D e (observe D e (state_of ?pre))"
  have bound: "length (filter isAttempt (trace_of (loopPass cfg D e s))) \<le> 3"
  proof -
    from bookingStep_events [of cfg D e "observe D e (state_of ?pre)"]
    obtain k where "k \<le> 3" and "trace_of ?book = map (\<lambda>n. EvAttempt n True) [1..<1 + k]"
      by auto
    then have "length (filter isAttempt (trace_of ?book)) \<le> 3"
      by (simp add: attempts_filter)
    then show ?thesis
      by (simp add: loopPass_trace preChecks_no_attempt split: option.splits)
  qed
  have due: "now (examplePass 400000 [] VerifyThrew)
        - startedAt (exampleSession [examplePass 400000 [] VerifyThrew]) > verifyIntervalMs exampleConfig"
    by (simp add: verifyIntervalMs_def exampleConfig_def)
  from bound pass_completes(3) pass_completes(1) pass_completes(2)
    pass_lost(1) [of msg] pass_lost(2) [of msg] pass_lost(3) [of msg]
    closedMessage run_lost due pass_verifies
  show ?thesis
    by (intro conjI)
qed

section \<open>The verification timer\<close>

lemma pre_login_failed:
  assumes "\<not> bookingInProgress s" and "lastVerifyTime s = 0" and "lastCookieReset s = 0"
    and "checkCount s < 40" and "300000 < t" and "t \<le> 900000"
  shows "preChecks exampleConfig (examplePass t [] (VerifyLoginFailed False)) s
           = (None, s\<lparr>checkCount := checkCount s + 1, verifyBrowser := True\<rparr>, [EvVerify False])"
  using assms
  by (simp add: preChecks_def cookieResetStep_def livenessStep_def verifyStep_def busyStep_def
      cookieResetIntervalMs_def verifyIntervalMs_def verifyDataFreshness_def hasVerifyAccount_def
      exampleConfig_def)

lemma pass_login_failed:
  assumes "\<not> bookingInProgress s" and "lastVerifyTime s = 0" and "lastCookieReset s = 0"
    and "checkCount s < 40" and "300000 < t" and "t \<le> 900000" and "availableDate s = None"
  shows "ending_of (loopPass exampleConfig D (examplePass t [] (VerifyLoginFailed False)) s) = Continue"
    and "trace_of (loopPass exampleConfig D (examplePass t [] (VerifyLoginFailed False)) s) = [EvVerify False]"
    and "\<not> bookingInProgress (state_of (loopPass exampleConfig D (examplePass t [] (VerifyLoginFailed False)) s))"
    and "lastVerifyTime (state_of (loopPass exampleConfig D (examplePass t [] (VerifyLoginFailed False)) s)) = 0"
    and "lastCookieReset (state_of (loopPass exampleConfig D (examplePass t [] (VerifyLoginFailed False)) s)) = 0"
    and "checkCount (state_of (loopPass exampleConfig D (examplePass t [] (VerifyLoginFailed False)) s)) = checkCount s + 1"
    and "availableDate (state_of (loopPass exampleConfig D (examplePass t [] (VerifyLoginFailed False)) s)) = None"
proof -
  let ?e = "examplePass t [] (VerifyLoginFailed False)"
  define s1 where "s1 = s\<lparr>checkCount := checkCount s + 1, verifyBrowser := True\<rparr>"
  have pre: "preChecks exampleConfig ?e s = (None, s1, [EvVerify False])"
    unfolding s1_def by (rule pre_login_failed [OF assms(1-6)])
  have s1: "\<not> bookingInProgress s1" "lastVerifyTime s1 = 0" "lastCookieReset s1 = 0"
    "checkCount s1 = checkCount s + 1" "availableDate s1 = None"
    using assms by (simp_all add: s1_def)
  have book: "bookingStep exampleConfig D ?e (observe D ?e s1) = (None, observe D ?e s1, [])"
    using s1(5) by (simp add: bookingStep_def observe_def listen_def)
  show "ending_of (loopPass exampleConfig D ?e s) = Continue"
    by (simp add: loopPass_ending pre book)
  show "trace_of (loopPass exampleConfig D ?e s) = [EvVerify False]"
    by (simp add: loopPass_trace pre book)
  have st: "state_of (loopPass exampleConfig D ?e s) = statusStep ?e (observe D ?e s1)"
    by (simp add: loopPass_state pre book)
  show "\<not> bookingInProgress (state_of (loopPass exampleConfig D ?e s))"
    using s1(1) by (simp add: st)
  show "lastVerifyTime (state_of (loopPass exampleConfig D ?e s)) = 0"
    using s1(2) by (simp add: st statusStep_def observe_def listen_def)
  show "lastCookieReset (state_of (loopPass exampleConfig D ?e s)) = 0"
    using s1(3) by (simp add: st statusStep_def observe_def listen_def)
  show "checkCount (state_of (loopPass exampleConfig D ?e s)) = checkCount s + 1"
    using s1(4) by (simp add: st statusStep_def observe_def listen_def)
  show "availableDate (state_of (loopPass exampleConfig D ?e s)) = None"
    using s1(5) by (simp add: st statusStep_def observe_def listen_def)
qed

text \<open>
  C2. The timer \<open>lastVerifyTime\<close> after a run of the verification: the run that finds the
  verification account still on the sign-in page and closes the browser without error
  leaves the timer as it was; every other run (no account configured, an error raised, the
  comparison reached) sets it to the time of the run. So after a failed login the timer is
  not reset: in the example the verification is due at 400000 ms, the login fails, and the
  pass that follows half a second later runs the verification again.
\<close>

theorem login_failure_leaves_timer:
  "lastVerifyTime (snd (verifyDataFreshness cfg v s)) =
     (if hasVerifyAccount cfg \<and> outcome v = VerifyLoginFailed False then lastVerifyTime s
      else finishedAt v)
   \<and> lastVerifyTime (state_of (loopPass exampleConfig exampleDate
          (examplePass 400000 [] (VerifyLoginFailed False)) initialBot)) = lastVerifyTime initialBot
   \<and> trace_of (monitor exampleConfig exampleDate
          [examplePass 400000 [] (VerifyLoginFailed False),
           examplePass 400500 [] (VerifyLoginFailed False)] initialBot)
       = [EvVerify False, EvVerify False]"
proof -
  have a: "lastVerifyTime (snd (verifyDataFreshness cfg v s)) =
     (if hasVerifyAccount cfg \<and> outcome v = VerifyLoginFailed False then lastVerifyTime s
      else finishedAt v)"
    by (auto simp add: verifyDataFreshness_def verifyCatch_def Let_def split: verify_outcome.splits)
  note p1 = pass_login_failed [of initialBot 400000 exampleDate, simplified]
  note p2 = pass_login_failed [of "state_of (loopPass exampleConfig exampleDate
          (examplePass 400000 [] (VerifyLoginFailed False)) initialBot)" 400500 exampleDate,
          OF p1(3) p1(4) p1(5), simplified p1(6) p1(7), simplified]
  have b: "lastVerifyTime (state_of (loopPass exampleConfig exampleDate
          (examplePass 400000 [] (VerifyLoginFailed False)) initialBot)) = lastVerifyTime initialBot"
    using p1(4) by simp
  have c: "trace_of (monitor exampleConfig exampleDate
          [examplePass 400000 [] (VerifyLoginFailed False),
           examplePass 400500 [] (VerifyLoginFailed False)] initialBot)
       = [EvVerify False, EvVerify False]"
    by (subst monitor_trace_step, rule p1(1), subst monitor_trace_step, rule p2(1))
      (simp add: p1(2) p2(2))
  from a b c show ?thesis
    by blast
qed

section \<open>The verdict of the verification\<close>

text \<open>
  C1. A run of the freshness verification that reaches the comparison declares the data
  stale (returns \<open>false\<close>) if and only if both dates are defined and unequal, or the
  primary date is undefined while the secondary one is defined. In the other combinations
  (both undefined; primary defined and both equal; primary defined and secondary undefined)
  it declares the data fresh. A date is defined when the test of the code finds it: the
  record is there and its date is not the empty string. For dates that are not empty, this
  is: two records with different dates are stale, no primary record against a secondary one
  is stale, and no secondary record is fresh.
\<close>

theorem verdict_stale_iff:
  assumes "hasVerifyAccount cfg" and "outcome v = VerifyCompared captured False"
  shows "(fst (verifyDataFreshness cfg v s) = False \<longleftrightarrow>
            (truthy (map_option date (availableDate s)) \<and> truthy (map_option date captured)
               \<and> map_option date (availableDate s) \<noteq> map_option date captured)
            \<or> (\<not> truthy (map_option date (availableDate s)) \<and> truthy (map_option date captured)))
       \<and> (fst (verifyDataFreshness cfg v s) = True \<longleftrightarrow>
            (\<not> truthy (map_option date (availableDate s)) \<and> \<not> truthy (map_option date captured))
            \<or> (truthy (map_option date (availableDate s))
                 \<and> map_option date (availableDate s) = map_option date captured)
            \<or> (truthy (map_option date (availableDate s)) \<and> \<not> truthy (map_option date captured)))
       \<and> (availableDate s = Some a \<and> captured = Some b \<and> date a \<noteq> [] \<and> date b \<noteq> [] \<longrightarrow>
            (fst (verifyDataFreshness cfg v s) = False \<longleftrightarrow> date a \<noteq> date b))
       \<and> (availableDate s = None \<and> captured = Some b \<and> date b \<noteq> [] \<longrightarrow>
            fst (verifyDataFreshness cfg v s) = False)
       \<and> (captured = None \<longrightarrow> fst (verifyDataFreshness cfg v s) = True)"
proof -
  from assms have run: "fst (verifyDataFreshness cfg v s)
      = compareDates (map_option date (availableDate s)) (map_option date captured)"
    by (simp add: verifyDataFreshness_def Let_def)
  show ?thesis
    unfolding run by (auto simp add: compareDates_def truthy_def)
qed

theorem verdict_stale_iff_witness:
  "fst (verifyDataFreshness exampleConfig
          \<lparr>outcome = VerifyCompared (Some \<lparr>date = ''2026-01-05''\<rparr>) False, finishedAt = 9000\<rparr>
          (initialBot\<lparr>availableDate := Some \<lparr>date = ''2026-02-10''\<rparr>\<rparr>)) = False
   \<and> fst (verifyDataFreshness exampleConfig
          \<lparr>outcome = VerifyCompared (Some \<lparr>date = ''2026-02-10''\<rparr>) False, finishedAt = 9000\<rparr>
          (initialBot\<lparr>availableDate := Some \<lparr>date = ''2026-02-10''\<rparr>\<rparr>)) = True
   \<and> fst (verifyDataFreshness exampleConfig
          \<lparr>outcome = VerifyCompared (Some \<lparr>date = ''2026-02-10''\<rparr>) False, finishedAt = 9000\<rparr>
          initialBot) = False
   \<and> fst (verifyDataFreshness exampleConfig
          \<lparr>outcome = VerifyCompared None False, finishedAt = 9000\<rparr>
          (initialBot\<lparr>availableDate := Some \<lparr>date = ''2026-02-10''\<rparr>\<rparr>)) = True
   \<and> fst (verifyDataFreshness exampleConfig
          \<lparr>outcome = VerifyCompared None False, finishedAt = 9000\<rparr> initialBot) = True"
proof -
  have acct: "hasVerifyAccount exampleConfig"
    by (simp add: hasVerifyAccount_def exampleConfig_def)
  have o: "outcome \<lparr>outcome = VerifyCompared c False, finishedAt = 9000\<rparr> = VerifyCompared c False" for c
    by simp
  note th = verdict_stale_iff [OF acct o]
  have a: "fst (verifyDataFreshness exampleConfig
          \<lparr>outcome = VerifyCompared (Some \<lparr>date = ''2026-01-05''\<rparr>) False, finishedAt = 9000\<rparr>
          (initialBot\<lparr>availableDate := Some \<lparr>date = ''2026-02-10''\<rparr>\<rparr>)) = False"
    using th [of "Some \<lparr>date = ''2026-01-05''\<rparr>" "initialBot\<lparr>availableDate := Some \<lparr>date = ''2026-02-10''\<rparr>\<rparr>"]
    by (simp add: truthy_def)
  have b: "fst (verifyDataFreshness exampleConfig
          \<lparr>outcome = VerifyCompared (Some \<lparr>date = ''2026-02-10''\<rparr>) False, finishedAt = 9000\<rparr>
          (initialBot\<lparr>availableDate := Some \<lparr>date = ''2026-02-10''\<rparr>\<rparr>)) = True"
    using th [of "Some \<lparr>date = ''2026-02-10''\<rparr>" "initialBot\<lparr>availableDate := Some \<lparr>date = ''2026-02-10''\<rparr>\<rparr>"]
    by (simp add: truthy_def)
  have c: "fst (verifyDataFreshness exampleConfig
          \<lparr>outcome = VerifyCompared (Some \<lparr>date = ''2026-02-10''\<rparr>) False, finishedAt = 9000\<rparr>
          initialBot) = False"
    using th [of "Some \<lparr>date = ''2026-02-10''\<rparr>" initialBot]
    by (simp add: truthy_def initialBot_def)
  have d: "fst (verifyDataFreshness exampleConfig
          \<lparr>outcome = VerifyCompared None False, finishedAt = 9000\<rparr>
          (initialBot\<lparr>availableDate := Some \<lparr>date = ''2026-02-10''\<rparr>\<rparr>)) = True"
    using th [of None "initialBot\<lparr>availableDate := Some \<lparr>date = ''2026-02-10''\<rparr>\<rparr>"]
    by (simp add: truthy_def)
  have e: "fst (verifyDataFreshness exampleConfig
          \<lparr>outcome = VerifyCompared None False, finishedAt = 9000\<rparr> initialBot) = True"
    using th [of None initialBot]
    by (simp add: truthy_def initialBot_def)
  from a b c d e show ?thesis
    by blast
qed

section \<open>The result of a booking attempt\<close>

text \<open>
  C8. A booking attempt that comes to an end reports success exactly when the query for the
  submission form after the submission does not find it, and failure when the form is
  found; a query that fails counts as not finding it, as its handler makes it. An attempt
  in which a step raises, at the first step or after the time has arrived, is decided by
  the same query in the same way. The attempt comes to an end when the first step raises
  or a time arrives; otherwise it is still waiting.
\<close>

theorem booking_reports_form_absence:
  "fst (performBooking e s) =
     (if setDateRaises e \<or> awaitTime (timeDuringSetDate e) (polls e) \<noteq> None
      then Some (formLookup e \<noteq> Found) else None)
   \<and> (setDateRaises e \<longrightarrow> fst (performBooking e s) = Some (formLookup e \<noteq> Found))
   \<and> (awaitTime (timeDuringSetDate e) (polls e) \<noteq> None \<and> (setTimeRaises e \<or> confirmRaises e)
        \<longrightarrow> fst (performBooking e s) = Some (formLookup e \<noteq> Found))"
  by (auto simp add: performBooking_def bookingCatch_def stillOnForm_def Let_def
      split: option.splits lookup.splits)

theorem booking_reports_form_absence_witness:
  "fst (performBooking formStays initialBot) = Some False
   \<and> fst (performBooking formGone initialBot) = Some True
   \<and> fst (performBooking (formGone\<lparr>setDateRaises := True\<rparr>) initialBot) = Some True
   \<and> fst (performBooking (formStays\<lparr>setDateRaises := True\<rparr>) initialBot) = Some False
   \<and> fst (performBooking (formGone\<lparr>timeDuringSetDate := None,
            polls := [(None, None), (Some ''10:30'', None)], confirmRaises := True\<rparr>) initialBot) = Some True
   \<and> fst (performBooking (formGone\<lparr>timeDuringSetDate := None, polls := [(None, None)]\<rparr>) initialBot) = None"
proof -
  note th = booking_reports_form_absence [THEN conjunct1]
  have a: "fst (performBooking formStays initialBot) = Some False"
    using th [of formStays initialBot] by (simp add: formStays_def truthy_def)
  have b: "fst (performBooking formGone initialBot) = Some True"
    using th [of formGone initialBot] by (simp add: formStays_def formGone_def truthy_def)
  have c: "fst (performBooking (formGone\<lparr>setDateRaises := True\<rparr>) initialBot) = Some True"
    using th [of "formGone\<lparr>setDateRaises := True\<rparr>" initialBot] by (simp add: formStays_def formGone_def)
  have d: "fst (performBooking (formStays\<lparr>setDateRaises := True\<rparr>) initialBot) = Some False"
    using th [of "formStays\<lparr>setDateRaises := True\<rparr>" initialBot] by (simp add: formStays_def)
  have e: "fst (performBooking (formGone\<lparr>timeDuringSetDate := None,
            polls := [(None, None), (Some ''10:30'', None)], confirmRaises := True\<rparr>) initialBot) = Some True"
    using th [of "formGone\<lparr>timeDuringSetDate := None,
            polls := [(None, None), (Some ''10:30'', None)], confirmRaises := True\<rparr>" initialBot]
    by (simp add: formStays_def formGone_def truthy_def)
  have f: "fst (performBooking (formGone\<lparr>timeDuringSetDate := None, polls := [(None, None)]\<rparr>) initialBot) = None"
    using th [of "formGone\<lparr>timeDuringSetDate := None, polls := [(None, None)]\<rparr>" initialBot]
    by (simp add: formStays_def formGone_def truthy_def)
  from a b c d e f show ?thesis
    by blast
qed

section \<open>The closest-slot trackers\<close>


lemma date_lt_irrefl [simp]: "\<not> date_lt a a"
  by (simp add: date_lt_def split: option.splits)

lemma noLater_refl [simp]: "noLater D x x"
  by (simp add: noLater_def)
























section \<open>Failed logins and the ban list\<close>

lemma runBotOk_banned:
  "isAccountBanned (banList st) email \<Longrightarrow> runBotOk email tm sessions st = (OkExited 10, st, [])"
  by (simp add: runBotOk.simps)

lemma runBotOk_Nil:
  "runBotOk email tm [] st =
     (if isAccountBanned (banList st) email then (OkExited 10, st, [])
      else if consecutiveLoginFailures st \<ge> 3
      then (OkExited 1, st\<lparr>banList := banAccount (banList st) email ''Too many login failures'' tm\<rparr>, [])
      else (OkRunning, st, []))"
  by (simp add: runBotOk.simps [of email tm "[]"])

lemma runBotOk_started:
  "runBotOk email tm sessions st = (OkRunning, st1, evs1) \<Longrightarrow>
     \<not> isAccountBanned (banList st) email \<and> consecutiveLoginFailures st < 3"
  by (cases "isAccountBanned (banList st) email"; cases "consecutiveLoginFailures st \<ge> 3")
    (simp_all add: runBotOk.simps [of email tm sessions st])

lemma runBotOk_Cons:
  assumes "\<not> isAccountBanned (banList st) email" and "consecutiveLoginFailures st < 3"
  shows "runBotOk email tm (x # rest) st =
     (case x of
        LaunchFails \<Rightarrow> (OkReturned, st, [])
      | LoginBusy \<Rightarrow> (OkExited 20, st, [EvLogin])
      | LoginLocked lockMsg \<Rightarrow>
          (OkExited 10, st\<lparr>banList := banAccount (banList st) email lockMsg tm\<rparr>, [EvLogin])
      | LoginLockedAfter \<Rightarrow>
          (OkExited 10,
           st\<lparr>banList := banAccount (banList st) email ''Account locked post-login'' tm\<rparr>,
           [EvLogin])
      | LoginRaises \<Rightarrow>
          (if consecutiveLoginFailures st + 1 < 3
           then (case runBotOk email tm rest
                        (st\<lparr>consecutiveLoginFailures := consecutiveLoginFailures st + 1\<rparr>) of
                   (fin, st2, evs) \<Rightarrow> (fin, st2, EvLogin # evs))
           else (OkExited 10,
                 st\<lparr>consecutiveLoginFailures := consecutiveLoginFailures st + 1,
                    banList := banAccount (banList st) email
                                 ''Max login attempts reached (3 failures)'' tm\<rparr>,
                 [EvLogin]))
      | NavigationFails \<Rightarrow>
          (case runBotOk email tm rest (st\<lparr>consecutiveLoginFailures := 0\<rparr>) of
             (fin, st2, evs) \<Rightarrow> (fin, st2, EvLogin # evs))
      | MonitorBusy \<Rightarrow> (OkExited 20, st\<lparr>consecutiveLoginFailures := 0\<rparr>, [EvLogin])
      | SessionLost \<Rightarrow>
          (case runBotOk email tm rest (st\<lparr>consecutiveLoginFailures := 0\<rparr>) of
             (fin, st2, evs) \<Rightarrow> (fin, st2, EvLogin # evs))
      | Booked \<Rightarrow> (OkReturned, st\<lparr>consecutiveLoginFailures := 0\<rparr>, [EvLogin])
      | LoopRaises \<Rightarrow> (OkReturned, st\<lparr>consecutiveLoginFailures := 0\<rparr>, [EvLogin]))"
  using assms
  by (simp add: runBotOk.simps [of email tm "x # rest" st] Let_def split: ok_session.splits)

lemma runBotOk_append:
  "runBotOk email tm pre st = (OkRunning, st1, evs1) \<Longrightarrow>
     runBotOk email tm (pre @ later) st =
       (case runBotOk email tm later st1 of (fin, st2, evs2) \<Rightarrow> (fin, st2, evs1 @ evs2))
     \<and> \<not> isAccountBanned (banList st1) email \<and> consecutiveLoginFailures st1 < 3"
proof (induction pre arbitrary: st evs1)
  case Nil
  then show ?case
    by (auto simp add: runBotOk_Nil split: if_splits)
next
  case (Cons x pre)
  from runBotOk_started [OF Cons.prems]
  have ok: "\<not> isAccountBanned (banList st) email" "consecutiveLoginFailures st < 3"
    by simp_all
  note unfold = runBotOk_Cons [OF ok]
  show ?case
  proof (cases x)
    case LoginRaises
    let ?st = "st\<lparr>consecutiveLoginFailures := consecutiveLoginFailures st + 1\<rparr>"
    from Cons.prems LoginRaises obtain evs where lt: "consecutiveLoginFailures st + 1 < 3"
      and r: "runBotOk email tm pre ?st = (OkRunning, st1, evs)" and e: "evs1 = EvLogin # evs"
      by (auto simp add: unfold split: if_splits prod.splits)
    from Cons.IH [OF r] LoginRaises lt e show ?thesis
      by (auto simp add: unfold split: prod.splits)
  next
    case NavigationFails
    from Cons.prems NavigationFails obtain evs where
      r: "runBotOk email tm pre (st\<lparr>consecutiveLoginFailures := 0\<rparr>) = (OkRunning, st1, evs)"
      and e: "evs1 = EvLogin # evs"
      by (auto simp add: unfold split: if_splits prod.splits)
    from Cons.IH [OF r] NavigationFails e show ?thesis
      by (auto simp add: unfold split: prod.splits)
  next
    case SessionLost
    from Cons.prems SessionLost obtain evs where
      r: "runBotOk email tm pre (st\<lparr>consecutiveLoginFailures := 0\<rparr>) = (OkRunning, st1, evs)"
      and e: "evs1 = EvLogin # evs"
      by (auto simp add: unfold split: if_splits prod.splits)
    from Cons.IH [OF r] SessionLost e show ?thesis
      by (auto simp add: unfold split: prod.splits)
  qed (use Cons.prems in \<open>auto simp add: unfold\<close>)
qed

lemma banAccount_banned [simp]: "isAccountBanned (banAccount bans email reason tm) email"
  by (simp add: isAccountBanned_def banAccount_def)

lemma banAccount_keeps: "isAccountBanned bans e \<Longrightarrow> isAccountBanned (banAccount bans email reason tm) e"
  by (simp add: isAccountBanned_def banAccount_def)

lemma three_strikes:
  assumes "\<not> isAccountBanned (banList st) email" and "consecutiveLoginFailures st = k" and "k < 3"
  shows "ending_of (runBotOk email tm (replicate (3 - k) LoginRaises @ rest) st) = OkExited 10
       \<and> isAccountBanned (banList (state_of (runBotOk email tm (replicate (3 - k) LoginRaises @ rest) st))) email
       \<and> trace_of (runBotOk email tm (replicate (3 - k) LoginRaises @ rest) st) = replicate (3 - k) EvLogin"
proof -
  have r3: "replicate 3 x = [x, x, x]" and r2: "replicate 2 x = [x, x]" for x :: 'a
    by (simp_all add: numeral_3_eq_3 numeral_2_eq_2)
  from assms(3) consider "k = 0" | "k = 1" | "k = 2"
    by linarith
  then show ?thesis
  proof cases
    case 1
    with assms show ?thesis
      by (simp add: r3 runBotOk_Cons split: prod.splits)
  next
    case 2
    with assms show ?thesis
      by (simp add: r2 runBotOk_Cons split: prod.splits)
  next
    case 3
    with assms show ?thesis
      by (simp add: runBotOk_Cons split: prod.splits)
  qed
qed

lemma prefixed_ending: "ending_of (case r of (fin, st2, evs2) \<Rightarrow> (fin, st2, evs1 @ evs2)) = ending_of r"
  by (cases r) simp

lemma prefixed_state: "state_of (case r of (fin, st2, evs2) \<Rightarrow> (fin, st2, evs1 @ evs2)) = state_of r"
  by (cases r) simp

lemma prefixed_trace:
  "trace_of (case r of (fin, st2, evs2) \<Rightarrow> (fin, st2, evs1 @ evs2)) = evs1 @ trace_of r"
  by (cases r) simp

text \<open>
  C6, as amended. In the bot with the ban list (\<open>ok.js\<close>): when a run of the process has
  come through its sessions so far and stands at \<open>k\<close> consecutive failed logins, the
  failed logins that bring the count to three end the process with exit code 10 and the
  credential in the ban list, and no login is attempted after the third failure, whatever
  sessions would follow. Every start of the bot with the credential in the ban list exits
  with code 10 before any login. The engine with freshness verification has no ban list:
  it goes on retrying.
\<close>

theorem three_failed_logins_ban:
  "(runBotOk email tm pre st = (OkRunning, st1, evs1) \<and> consecutiveLoginFailures st1 = k \<longrightarrow>
      ending_of (runBotOk email tm (pre @ replicate (3 - k) LoginRaises @ rest) st) = OkExited 10
      \<and> isAccountBanned
           (banList (state_of (runBotOk email tm (pre @ replicate (3 - k) LoginRaises @ rest) st))) email
      \<and> trace_of (runBotOk email tm (pre @ replicate (3 - k) LoginRaises @ rest) st)
          = evs1 @ replicate (3 - k) EvLogin)
   \<and> (isAccountBanned (banList st) email \<longrightarrow> runBotOk email tm sessions st = (OkExited 10, st, []))"
proof -
  have strikes:
    "ending_of (runBotOk email tm (pre @ replicate (3 - k) LoginRaises @ rest) st) = OkExited 10
      \<and> isAccountBanned
           (banList (state_of (runBotOk email tm (pre @ replicate (3 - k) LoginRaises @ rest) st))) email
      \<and> trace_of (runBotOk email tm (pre @ replicate (3 - k) LoginRaises @ rest) st)
          = evs1 @ replicate (3 - k) EvLogin"
    if run: "runBotOk email tm pre st = (OkRunning, st1, evs1)" and k: "consecutiveLoginFailures st1 = k"
  proof -
    let ?more = "replicate (3 - k) LoginRaises @ rest"
    from runBotOk_append [OF run, of ?more]
    have app: "runBotOk email tm (pre @ ?more) st =
        (case runBotOk email tm ?more st1 of (fin, st2, evs2) \<Rightarrow> (fin, st2, evs1 @ evs2))"
      and nb: "\<not> isAccountBanned (banList st1) email" and lt: "k < 3"
      using k by simp_all
    from three_strikes [OF nb k lt, of tm rest] show ?thesis
      by (simp add: app prefixed_ending prefixed_state prefixed_trace)
  qed
  have banned: "runBotOk email tm sessions st = (OkExited 10, st, [])"
    if "isAccountBanned (banList st) email"
    using that by (rule runBotOk_banned)
  from strikes banned show ?thesis
    by blast
qed

lemma nav_then_running:
  "runBotOk ''user@example.org'' 7 [NavigationFails] (freshProcess [])
     = (OkRunning, freshProcess [], [EvLogin])"
  by (simp add: runBotOk.simps [of _ _ "[NavigationFails]"] runBotOk_Nil freshProcess_def
      isAccountBanned_def)

theorem three_failed_logins_ban_witness:
  "ending_of (runBotOk ''user@example.org'' 7
       [NavigationFails, LoginRaises, LoginRaises, LoginRaises, LoginRaises, Booked]
       (freshProcess [])) = OkExited 10
   \<and> trace_of (runBotOk ''user@example.org'' 7
       [NavigationFails, LoginRaises, LoginRaises, LoginRaises, LoginRaises, Booked]
       (freshProcess [])) = [EvLogin, EvLogin, EvLogin, EvLogin]
   \<and> isAccountBanned (banList (state_of (runBotOk ''user@example.org'' 7
       [NavigationFails, LoginRaises, LoginRaises, LoginRaises, LoginRaises, Booked]
       (freshProcess [])))) ''user@example.org''
   \<and> runBotOk ''user@example.org'' 8 [Booked]
        (freshProcess (banAccount [] ''user@example.org'' ''Max login attempts reached (3 failures)'' 7))
      = (OkExited 10,
         freshProcess (banAccount [] ''user@example.org'' ''Max login attempts reached (3 failures)'' 7),
         [])"
proof -
  have k: "consecutiveLoginFailures (freshProcess []) = 0"
    by (simp add: freshProcess_def)
  have b: "isAccountBanned (banList (freshProcess
      (banAccount [] ''user@example.org'' ''Max login attempts reached (3 failures)'' 7))) ''user@example.org''"
    by (simp add: freshProcess_def)
  from three_failed_logins_ban [where email = "''user@example.org''" and tm = 7
      and pre = "[NavigationFails]" and st = "freshProcess []" and ?st1.0 = "freshProcess []"
      and ?evs1.0 = "[EvLogin]" and k = 0 and rest = "[LoginRaises, Booked]"]
    nav_then_running k
  have first: "ending_of (runBotOk ''user@example.org'' 7
       [NavigationFails, LoginRaises, LoginRaises, LoginRaises, LoginRaises, Booked]
       (freshProcess [])) = OkExited 10
   \<and> trace_of (runBotOk ''user@example.org'' 7
       [NavigationFails, LoginRaises, LoginRaises, LoginRaises, LoginRaises, Booked]
       (freshProcess [])) = [EvLogin, EvLogin, EvLogin, EvLogin]
   \<and> isAccountBanned (banList (state_of (runBotOk ''user@example.org'' 7
       [NavigationFails, LoginRaises, LoginRaises, LoginRaises, LoginRaises, Booked]
       (freshProcess [])))) ''user@example.org''"
    by (simp add: numeral_3_eq_3)
  from three_failed_logins_ban [where email = "''user@example.org''" and tm = 8
      and st = "freshProcess (banAccount [] ''user@example.org'' ''Max login attempts reached (3 failures)'' 7)"
      and sessions = "[Booked]"] b
  have second: "runBotOk ''user@example.org'' 8 [Booked]
        (freshProcess (banAccount [] ''user@example.org'' ''Max login attempts reached (3 failures)'' 7))
      = (OkExited 10,
         freshProcess (banAccount [] ''user@example.org'' ''Max login attempts reached (3 failures)'' 7),
         [])"
    by blast
  from first second show ?thesis
    by blast
qed

text \<open>
  In the engine with freshness verification four sessions in a row whose login fails are
  four login attempts, and the fourth call of \<open>runBot\<close> is followed by a fifth: the
  credential is attempted again after three consecutive failures.
\<close>

theorem engine_retries_after_three_failures:
  "runBot exampleConfig exampleDate [loginFails, loginFails, loginFails, loginFails] initialBot
     = (None, initialBot, [EvLogin, EvLogin, EvLogin, EvLogin])"
  by (simp add: loginFails_def exampleConfig_def)

end
